theory Spec2Isabelle
  imports Complex_Main
begin

section \<open>Data model (rules.py, preference.py)\<close>

text \<open>
  A candidate is an index \<open>0..4\<close>; a preference is one row of the preference array,
  position 0 holding the most preferred candidate. The array
  (\<^verbatim>\<open>np.ndarray\<close> of shape \<open>(n, 5)\<close>) is the list of its rows. Array entries are
  modelled as natural numbers: the counters of the rules are bounded by the number of
  rows, far below the range of the \<^verbatim>\<open>int32\<close>/\<^verbatim>\<open>int64\<close> cells that hold them,
  so no wrap-around is written out.
\<close>

type_synonym Candidate = nat
type_synonym Preference = "nat list"
type_synonym PreferenceArray = "nat list list"

text \<open>The exceptions the rule engines can raise on arrays that are not ballot sets.\<close>

datatype error = IndexError | ValueError

text \<open>The values stored in the \<^verbatim>\<open>aux\<close> dictionary of a result.\<close>

datatype obj =
    PyInt nat
  | PyBool bool
  | PyList "nat list"
  | PyMatrix "nat list list"

record RuleResult =
  winner :: "Candidate option"
  aux :: "(string \<times> obj) list"

text \<open>A ballot is a permutation of \<open>[0,5)\<close>; a ballot set is an array of ballots.\<close>

definition is_ballot :: "Preference \<Rightarrow> bool" where
  "is_ballot row \<longleftrightarrow> distinct row \<and> set row = {0..<5}"

definition ballot_set :: "PreferenceArray \<Rightarrow> bool" where
  "ballot_set preferences \<longleftrightarrow> (\<forall>row \<in> set preferences. is_ballot row)"

section \<open>numpy operations used by the rules\<close>

text \<open>
  \<^verbatim>\<open>np.bincount(xs, minlength=m)\<close>: cell \<open>i\<close> counts the occurrences of \<open>i\<close>; the
  result has \<open>max m (max xs + 1)\<close> cells.
\<close>

definition bincount :: "nat list \<Rightarrow> nat \<Rightarrow> nat list" where
  "bincount xs minlength =
     map (count_list xs) [0..<fold (\<lambda>x m. max (Suc x) m) xs minlength]"

text \<open>\<^verbatim>\<open>preferences[:, pos]\<close>: the column, an IndexError when a row is too short.\<close>

definition column :: "PreferenceArray \<Rightarrow> nat \<Rightarrow> error + nat list" where
  "column preferences pos =
     (if list_all (\<lambda>row. pos < length row) preferences
      then Inr (map (\<lambda>row. row ! pos) preferences)
      else Inl IndexError)"

text \<open>\<^verbatim>\<open>np.flatnonzero(flags)\<close>: the indices of the true cells, ascending.\<close>

definition flatnonzero :: "bool list \<Rightarrow> nat list" where
  "flatnonzero flags = filter (\<lambda>i. flags ! i) [0..<length flags]"

text \<open>
  \<^verbatim>\<open>xs.max()\<close> of an array that is never empty here (a bincount with minlength 5),
  and \<^verbatim>\<open>np.argmax(xs)\<close>, the first index of the maximum.
\<close>

definition amax :: "nat list \<Rightarrow> nat" where
  "amax xs = fold max (tl xs) (hd xs)"

definition argmax :: "nat list \<Rightarrow> nat" where
  "argmax xs = hd (flatnonzero (map (\<lambda>x. x = amax xs) xs))"

section \<open>The rules (rules.py)\<close>

text \<open>\<^verbatim>\<open>int(min(candidates))\<close>; Python's \<^verbatim>\<open>min\<close> raises ValueError on an empty sequence.\<close>

definition alphabetical_tiebreak :: "Candidate list \<Rightarrow> error + Candidate" where
  "alphabetical_tiebreak candidates =
     (case candidates of
        [] \<Rightarrow> Inl ValueError
      | c # cs \<Rightarrow> Inr (fold min cs c))"

subsection \<open>Plurality\<close>

definition Plurality_compute :: "PreferenceArray \<Rightarrow> error + RuleResult" where
  "Plurality_compute preferences =
     (case column preferences 0 of
        Inl e \<Rightarrow> Inl e
      | Inr first_choices \<Rightarrow>
          let counts = bincount first_choices 5;
              max_count = amax counts;
              tied = flatnonzero (map (\<lambda>c. c = max_count) counts)
          in case alphabetical_tiebreak tied of
               Inl e \<Rightarrow> Inl e
             | Inr w \<Rightarrow>
                 Inr \<lparr>winner = Some w,
                      aux = [(''counts'', PyList counts),
                             (''tie'', PyBool (length tied > 1))]\<rparr>)"

subsection \<open>Borda\<close>

definition position_points :: "nat list" where
  "position_points = [4, 3, 2, 1, 0]"

text \<open>
  The loop \<^verbatim>\<open>for pos in range(5)\<close>, over the positions still to visit.
  \<^verbatim>\<open>scores += counts * points\<close> raises ValueError when the two arrays differ in
  length (a bincount longer than 5 cannot be broadcast into \<open>scores\<close>).
\<close>

fun borda_scores :: "PreferenceArray \<Rightarrow> nat list \<Rightarrow> nat list \<Rightarrow> error + nat list" where
  "borda_scores preferences [] scores = Inr scores"
| "borda_scores preferences (pos # rest) scores =
     (case column preferences pos of
        Inl e \<Rightarrow> Inl e
      | Inr cands_at_pos \<Rightarrow>
          let points = position_points ! pos;
              counts = bincount cands_at_pos 5
          in if length counts \<noteq> length scores then Inl ValueError
             else borda_scores preferences rest
                    (map (\<lambda>(s, c). s + c * points) (zip scores counts)))"

definition Borda_compute :: "PreferenceArray \<Rightarrow> error + RuleResult" where
  "Borda_compute preferences =
     (let n = length preferences in
      case borda_scores preferences [0..<5] (replicate 5 0) of
        Inl e \<Rightarrow> Inl e
      | Inr scores \<Rightarrow>
          let max_score = amax scores;
              tied = flatnonzero (map (\<lambda>s. s = max_score) scores)
          in case alphabetical_tiebreak tied of
               Inl e \<Rightarrow> Inl e
             | Inr w \<Rightarrow>
                 let total_points = sum_list scores
                 in Inr \<lparr>winner = Some w,
                         aux = [(''scores'', PyList scores),
                                (''total_points'', PyInt total_points),
                                (''expected_total_points'', PyInt (n * 10)),
                                (''tie'', PyBool (length tied > 1))]\<rparr>)"

subsection \<open>Condorcet\<close>

text \<open>
  \<^verbatim>\<open>ranks = np.empty((n, 5))\<close> is uninitialised memory: its content is an input of the
  model, \<open>uninit row cand\<close> being the cell found at \<open>(row, cand)\<close>. The inner loop
  \<^verbatim>\<open>for pos, cand in enumerate(preferences[row]): ranks[row, cand] = pos\<close> overwrites
  cells of one row, with an IndexError when \<open>cand\<close> is no column of \<open>ranks\<close>.
\<close>

fun fill_ranks_row :: "int list \<Rightarrow> (nat \<times> Candidate) list \<Rightarrow> error + int list" where
  "fill_ranks_row r [] = Inr r"
| "fill_ranks_row r ((pos, cand) # rest) =
     (if cand < length r then fill_ranks_row (r[cand := int pos]) rest
      else Inl IndexError)"

text \<open>The outer loop \<^verbatim>\<open>for row in range(n)\<close>, from row index \<open>i\<close> on.\<close>

fun fill_ranks :: "(nat \<Rightarrow> nat \<Rightarrow> int) \<Rightarrow> nat \<Rightarrow> PreferenceArray \<Rightarrow> error + int list list" where
  "fill_ranks uninit i [] = Inr []"
| "fill_ranks uninit i (row # rows) =
     (case fill_ranks_row (map (uninit i) [0..<5]) (enumerate 0 row) of
        Inl e \<Rightarrow> Inl e
      | Inr r \<Rightarrow>
          (case fill_ranks uninit (Suc i) rows of
             Inl e \<Rightarrow> Inl e
           | Inr rs \<Rightarrow> Inr (r # rs)))"

text \<open>
  \<^verbatim>\<open>wins[a, b] = int(np.sum(ranks[:, a] < ranks[:, b]))\<close> off the diagonal, the
  diagonal keeping the 0 of \<^verbatim>\<open>np.zeros\<close>.
\<close>

definition pairwise_wins :: "int list list \<Rightarrow> nat list list" where
  "pairwise_wins ranks =
     map (\<lambda>a. map (\<lambda>b. if a = b then 0
                        else length (filter (\<lambda>r. r ! a < r ! b) ranks)) [0..<5]) [0..<5]"

text \<open>
  \<^verbatim>\<open>all(wins[a, b] > (n - wins[a, b]) for b in range(5) if b != a)\<close>; the difference is
  taken in the integers, as Python does.
\<close>

definition beats_all_others :: "nat \<Rightarrow> nat list list \<Rightarrow> Candidate \<Rightarrow> bool" where
  "beats_all_others n wins a =
     list_all (\<lambda>b. int (wins ! a ! b) > int n - int (wins ! a ! b))
       (filter (\<lambda>b. b \<noteq> a) [0..<5])"

definition Condorcet_compute :: "(nat \<Rightarrow> nat \<Rightarrow> int) \<Rightarrow> PreferenceArray \<Rightarrow> error + RuleResult" where
  "Condorcet_compute uninit preferences =
     (let n = length preferences in
      case fill_ranks uninit 0 preferences of
        Inl e \<Rightarrow> Inl e
      | Inr ranks \<Rightarrow>
          let wins = pairwise_wins ranks;
              beats_all = filter (beats_all_others n wins) [0..<5];
              w = (if length beats_all = 1 then Some (beats_all ! 0) else None)
          in Inr \<lparr>winner = w, aux = [(''wins'', PyMatrix wins)]\<rparr>)"

subsection \<open>Instant runoff\<close>

text \<open>
  The scan of one ballot: the first candidate whose \<open>active\<close> flag is set, nothing when
  the row holds no active candidate; \<^verbatim>\<open>active[cand]\<close> raises IndexError out of range.
\<close>

fun top_active :: "bool list \<Rightarrow> Preference \<Rightarrow> error + Candidate option" where
  "top_active active [] = Inr None"
| "top_active active (cand # rest) =
     (if cand < length active
      then (if active ! cand then Inr (Some cand) else top_active active rest)
      else Inl IndexError)"

fun first_choices_of :: "bool list \<Rightarrow> PreferenceArray \<Rightarrow> error + Candidate list" where
  "first_choices_of active [] = Inr []"
| "first_choices_of active (row # rows) =
     (case top_active active row of
        Inl e \<Rightarrow> Inl e
      | Inr t \<Rightarrow>
          (case first_choices_of active rows of
             Inl e \<Rightarrow> Inl e
           | Inr fc \<Rightarrow> Inr (case t of None \<Rightarrow> fc | Some c \<Rightarrow> c # fc)))"

text \<open>
  One pass through the body of \<^verbatim>\<open>while True\<close>: it either returns a result or goes on
  with one more candidate deactivated.
\<close>

datatype irv_step = Return RuleResult | Continue "bool list" "Candidate list"

definition irv_round :: "PreferenceArray \<Rightarrow> bool list \<Rightarrow> Candidate list \<Rightarrow> error + irv_step" where
  "irv_round preferences active elimination_order =
     (case first_choices_of active preferences of
        Inl e \<Rightarrow> Inl e
      | Inr first_choices \<Rightarrow>
          if first_choices = []
          then Inr (Return \<lparr>winner = None,
                            aux = [(''elimination_order'', PyList elimination_order)]\<rparr>)
          else
            let counts = bincount first_choices 5;
                total_active_votes = sum_list counts
            in if total_active_votes = 0
               then Inr (Return \<lparr>winner = None,
                                 aux = [(''elimination_order'', PyList elimination_order)]\<rparr>)
               else if amax counts * 2 > total_active_votes
               then Inr (Return \<lparr>winner = Some (argmax counts),
                                 aux = [(''counts'', PyList counts),
                                        (''elimination_order'', PyList elimination_order)]\<rparr>)
               else if length counts \<noteq> length active then Inl IndexError
               else
                 let masked = map fst (filter snd (zip counts active))
                 in if masked = [] then Inl ValueError
                    else
                      let min_count = fold min (tl masked) (hd masked);
                          cands_min = filter (\<lambda>c. active ! c \<and> counts ! c = min_count) [0..<5]
                      in case alphabetical_tiebreak cands_min of
                           Inl e \<Rightarrow> Inl e
                         | Inr elim \<Rightarrow>
                             let active' = active[elim := False];
                                 elimination_order' = elimination_order @ [elim]
                             in if length (filter id active') = 1
                                then Inr (Return
                                       \<lparr>winner = Some (flatnonzero active' ! 0),
                                        aux = [(''counts'', PyList counts),
                                               (''elimination_order'', PyList elimination_order')]\<rparr>)
                                else Inr (Continue active' elimination_order'))"

text \<open>
  A round that goes on has deactivated exactly one candidate that was active, and has
  appended it to the elimination order. This is what makes the loop terminate.
\<close>

lemma fold_min_in_set: "fold min cs (c::nat) \<in> set (c # cs)"
proof -
  have "fold min cs c = Min (set (c # cs))" by (simp only: Min.set_eq_fold)
  then show ?thesis using Min_in[of "set (c # cs)"] by simp
qed

lemma alphabetical_tiebreak_in_set:
  "alphabetical_tiebreak cands = Inr e \<Longrightarrow> e \<in> set cands"
  using fold_min_in_set
  by (auto simp: alphabetical_tiebreak_def split: list.splits)

lemma filter_id_update_False:
  "e < length active \<Longrightarrow> active ! e \<Longrightarrow>
   Suc (length (filter id (active[e := False]))) = length (filter id active)"
proof (induction active arbitrary: e)
  case Nil
  then show ?case by simp
next
  case (Cons a as)
  then show ?case by (cases e) auto
qed

lemma length_bincount_ge: "minlength \<le> length (bincount xs minlength)"
proof -
  have "m \<le> fold (\<lambda>x m. max (Suc x) m) xs m" for m
  proof (induction xs arbitrary: m)
    case Nil
    show ?case by simp
  next
    case (Cons x xs)
    have "m \<le> max (Suc x) m" by simp
    also have "\<dots> \<le> fold (\<lambda>x m. max (Suc x) m) xs (max (Suc x) m)" by (rule Cons.IH)
    finally show ?case by simp
  qed
  then show ?thesis by (simp add: bincount_def)
qed

lemma irv_round_Continue:
  assumes "irv_round preferences active elimination_order = Inr (Continue active' eo')"
  shows "\<exists>elim. elim < length active \<and> active ! elim \<and>
           active' = active[elim := False] \<and> eo' = elimination_order @ [elim]"
proof -
  from assms obtain first_choices masked elim where
    len: "length (bincount first_choices 5) = length active" and
    tb: "alphabetical_tiebreak
           (filter (\<lambda>c. active ! c \<and>
              bincount first_choices 5 ! c = fold min (tl masked) (hd masked)) [0..<5]) = Inr elim" and
    res: "active' = active[elim := False]" "eo' = elimination_order @ [elim]"
    by (auto simp: irv_round_def Let_def split: sum.splits if_splits)
  from alphabetical_tiebreak_in_set[OF tb] have "active ! elim" "elim < 5" by auto
  moreover have "5 \<le> length active" using length_bincount_ge[of 5 first_choices] len by simp
  ultimately show ?thesis using res by auto
qed

text \<open>The loop \<^verbatim>\<open>while True\<close>, from a state of \<open>active\<close> and \<open>elimination_order\<close>.\<close>

function irv_loop :: "PreferenceArray \<Rightarrow> bool list \<Rightarrow> Candidate list \<Rightarrow> error + RuleResult" where
  "irv_loop preferences active elimination_order =
     (case irv_round preferences active elimination_order of
        Inl e \<Rightarrow> Inl e
      | Inr (Return result) \<Rightarrow> Inr result
      | Inr (Continue active' elimination_order') \<Rightarrow>
          irv_loop preferences active' elimination_order')"
  by pat_completeness auto
termination
proof (relation "measure (\<lambda>(preferences, active, elimination_order). length (filter id active))")
  show "wf (measure (\<lambda>(preferences, active, elimination_order). length (filter id active)))"
    by simp
next
  fix preferences :: PreferenceArray and active elimination_order x2 active' eo'
  assume "irv_round preferences active elimination_order = Inr x2" "x2 = Continue active' eo'"
  then obtain elim where "elim < length active" "active ! elim" "active' = active[elim := False]"
    using irv_round_Continue by blast
  then have "length (filter id active') < length (filter id active)"
    using filter_id_update_False[of elim active] by simp
  then show "((preferences, active', eo'), (preferences, active, elimination_order))
      \<in> measure (\<lambda>(preferences, active, elimination_order). length (filter id active))"
    by simp
qed

declare irv_loop.simps [simp del]

definition IRV_compute :: "PreferenceArray \<Rightarrow> error + RuleResult" where
  "IRV_compute preferences = irv_loop preferences (replicate 5 True) []"

text \<open>
  The same loop with a bound on the number of passes through its body: \<open>None\<close> when the
  bound is reached before a return.
\<close>

fun irv_bounded :: "nat \<Rightarrow> PreferenceArray \<Rightarrow> bool list \<Rightarrow> Candidate list
    \<Rightarrow> (error + RuleResult) option" where
  "irv_bounded 0 preferences active elimination_order = None"
| "irv_bounded (Suc k) preferences active elimination_order =
     (case irv_round preferences active elimination_order of
        Inl e \<Rightarrow> Some (Inl e)
      | Inr (Return result) \<Rightarrow> Some (Inr result)
      | Inr (Continue active' elimination_order') \<Rightarrow>
          irv_bounded k preferences active' elimination_order')"

section \<open>The progressive simulator (engine.py, preference.py)\<close>

text \<open>\<^verbatim>\<open>CandidateSet().labels\<close>, the display labels of the candidates.\<close>

definition labels :: "string list" where
  "labels = [''A'', ''B'', ''C'', ''D'', ''E'']"

text \<open>
  \<^verbatim>\<open>itertools.permutations(range(n))\<close>: the permutations in the order of the positions
  chosen, so in lexicographic order for a sorted argument. \<open>perms\<close> is the table
  \<^verbatim>\<open>self._perms\<close> of the generator, whose shape check \<open>(120, 5)\<close> passes.
\<close>

fun permutations :: "nat list \<Rightarrow> nat list list" where
  "permutations [] = [[]]"
| "permutations (y # ys) =
     concat (map (\<lambda>i. map ((#) ((y # ys) ! i))
                          (permutations (take i (y # ys) @ drop (Suc i) (y # ys))))
               [0..<length (y # ys)])"

definition perms :: "Preference list" where
  "perms = permutations [0..<5]"

text \<open>
  \<^verbatim>\<open>PreferenceGenerator.sample(1)\<close>: the row of the table at the index drawn by the random
  generator, as an array of one row. The drawn index is an input of the model;
  \<^verbatim>\<open>rng.integers(low=0, high=120)\<close> draws it below 120.
\<close>

definition sample :: "nat \<Rightarrow> error + PreferenceArray" where
  "sample idx = (if idx < length perms then Inr [perms ! idx] else Inl IndexError)"

text \<open>\<^verbatim>\<open>labels[w] if w is not None else None\<close>.\<close>

definition label_of :: "Candidate option \<Rightarrow> error + string option" where
  "label_of w =
     (case w of
        None \<Rightarrow> Inr None
      | Some c \<Rightarrow> if c < length labels then Inr (Some (labels ! c)) else Inl IndexError)"

text \<open>
  \<^verbatim>\<open>ProgressiveSimulator._compute_winners\<close>: the four rules on the whole array, then the
  dictionary from rule name to label.
\<close>

definition compute_winners ::
    "(nat \<Rightarrow> nat \<Rightarrow> int) \<Rightarrow> PreferenceArray \<Rightarrow> error + (string \<times> string option) list" where
  "compute_winners uninit prefs =
     (case Plurality_compute prefs of Inl e \<Rightarrow> Inl e | Inr plr \<Rightarrow>
      case Borda_compute prefs of Inl e \<Rightarrow> Inl e | Inr bdr \<Rightarrow>
      case Condorcet_compute uninit prefs of Inl e \<Rightarrow> Inl e | Inr cdr \<Rightarrow>
      case IRV_compute prefs of Inl e \<Rightarrow> Inl e | Inr irr \<Rightarrow>
      case label_of (winner plr) of Inl e \<Rightarrow> Inl e | Inr pl \<Rightarrow>
      case label_of (winner bdr) of Inl e \<Rightarrow> Inl e | Inr bd \<Rightarrow>
      case label_of (winner cdr) of Inl e \<Rightarrow> Inl e | Inr cd \<Rightarrow>
      case label_of (winner irr) of Inl e \<Rightarrow> Inl e | Inr ir \<Rightarrow>
        Inr [(''plurality'', pl), (''borda'', bd), (''condorcet'', cd), (''irv'', ir)])"

text \<open>
  The record written at each step. \<^verbatim>\<open>_run_single\<close> draws one ballot per step, stacks it
  under the ballots so far, computes the winners on the whole array and hands the record
  to the recorder, which appends it to the file of the run. The model returns the records
  appended, and the exception that ended the run early, if any. Its inputs are the indices
  drawn by the random generator (\<open>draws k\<close> at step \<open>k\<close>), the readings of the clock and the
  uninitialised memory found by the Condorcet rule at each step.
\<close>

record StepRecord =
  run_id :: nat
  step :: nat
  timestamp :: real
  voter_preferences :: PreferenceArray
  winners :: "(string \<times> string option) list"

fun run_steps ::
    "(nat \<Rightarrow> nat) \<Rightarrow> (nat \<Rightarrow> real) \<Rightarrow> (nat \<Rightarrow> nat \<Rightarrow> nat \<Rightarrow> int) \<Rightarrow> nat \<Rightarrow> nat list \<Rightarrow>
     PreferenceArray \<Rightarrow> StepRecord list \<times> error option" where
  "run_steps draws clock uninit rid [] prefs_all = ([], None)"
| "run_steps draws clock uninit rid (k # steps) prefs_all =
     (case sample (draws k) of
        Inl e \<Rightarrow> ([], Some e)
      | Inr new_pref \<Rightarrow>
          let prefs_all' = prefs_all @ new_pref in
          case compute_winners (uninit k) prefs_all' of
            Inl e \<Rightarrow> ([], Some e)
          | Inr ws \<Rightarrow>
              let record = \<lparr>run_id = rid, step = k, timestamp = clock k,
                             voter_preferences = prefs_all', winners = ws\<rparr>;
                  (records, err) = run_steps draws clock uninit rid steps prefs_all'
              in (record # records, err))"

definition run_single ::
    "(nat \<Rightarrow> nat) \<Rightarrow> (nat \<Rightarrow> real) \<Rightarrow> (nat \<Rightarrow> nat \<Rightarrow> nat \<Rightarrow> int) \<Rightarrow> nat \<Rightarrow> nat \<Rightarrow>
     StepRecord list \<times> error option" where
  "run_single draws clock uninit rid max_voters =
     run_steps draws clock uninit rid [1..<max_voters + 1] []"

section \<open>Notions of the specification\<close>

text \<open>
  The position of a candidate on a ballot (0 is the most preferred), the number of
  ballots that put a candidate first, and the Borda score: \<open>K - 1 - p\<close> points from each
  ballot that ranks the candidate at position \<open>p\<close>, with \<open>K = 5\<close>.
\<close>

definition rank_of :: "Preference \<Rightarrow> Candidate \<Rightarrow> nat" where
  "rank_of row c = length (takeWhile (\<lambda>x. x \<noteq> c) row)"

definition first_place_count :: "PreferenceArray \<Rightarrow> Candidate \<Rightarrow> nat" where
  "first_place_count preferences c = length (filter (\<lambda>row. row ! 0 = c) preferences)"

definition borda_score :: "PreferenceArray \<Rightarrow> Candidate \<Rightarrow> nat" where
  "borda_score preferences c = sum_list (map (\<lambda>row. 4 - rank_of row c) preferences)"

text \<open>
  The number of ballots that rank \<open>a\<close> above \<open>b\<close>, and the Condorcet winner: a
  candidate that strictly beats every other candidate in their pairwise contest.
\<close>

definition prefer_count :: "PreferenceArray \<Rightarrow> Candidate \<Rightarrow> Candidate \<Rightarrow> nat" where
  "prefer_count preferences a b =
     length (filter (\<lambda>row. rank_of row a < rank_of row b) preferences)"

definition condorcet_winner :: "PreferenceArray \<Rightarrow> Candidate \<Rightarrow> bool" where
  "condorcet_winner preferences a \<longleftrightarrow>
     (\<forall>b \<in> set [0..<5]. b \<noteq> a \<longrightarrow> prefer_count preferences b a < prefer_count preferences a b)"

text \<open>
  The state of an instant-runoff count is determined by the candidates eliminated so
  far: \<open>active_of\<close> gives the flags, and \<open>round_counts\<close> the tally of a round, where each
  ballot counts for its most preferred candidate that is not eliminated.
\<close>

definition active_of :: "Candidate list \<Rightarrow> bool list" where
  "active_of eliminated = map (\<lambda>c. c \<notin> set eliminated) [0..<5]"

definition round_counts :: "PreferenceArray \<Rightarrow> Candidate list \<Rightarrow> nat list" where
  "round_counts preferences eliminated =
     map (\<lambda>c. length (filter (\<lambda>row. find (\<lambda>x. x \<notin> set eliminated) row = Some c) preferences))
       [0..<5]"

text \<open>
  What a count that ends with the elimination order \<open>eo'\<close> returns: on the empty array
  no winner and the elimination order alone; otherwise a winner that was never
  eliminated, with the tally of the last round, which started from \<open>eo'\<close> (a majority) or
  from \<open>eo'\<close> without its last entry (the fourth elimination left one candidate).
\<close>

definition irv_outcome :: "PreferenceArray \<Rightarrow> Candidate list \<Rightarrow> RuleResult \<Rightarrow> bool" where
  "irv_outcome preferences eo' result \<longleftrightarrow>
     distinct eo' \<and> set eo' \<subseteq> {0..<5} \<and> length eo' \<le> 4 \<and>
     (preferences = [] \<longrightarrow>
        result = \<lparr>winner = None, aux = [(''elimination_order'', PyList eo')]\<rparr>) \<and>
     (preferences \<noteq> [] \<longrightarrow>
        (\<exists>w. w < 5 \<and> w \<notin> set eo' \<and> (length eo' = 4 \<longrightarrow> insert w (set eo') = {0..<5}) \<and>
           result = \<lparr>winner = Some w,
                      aux = [(''counts'', PyList (round_counts preferences
                                (if length eo' = 4 then butlast eo' else eo'))),
                             (''elimination_order'', PyList eo')]\<rparr>))"

section \<open>Ballots, counting and the tie-break\<close>

lemma is_ballot_length: "is_ballot row \<Longrightarrow> length row = 5"
  using distinct_card[of row] by (simp add: is_ballot_def)

lemma is_ballot_bound: "is_ballot row \<Longrightarrow> c \<in> set row \<Longrightarrow> c < 5"
  by (simp add: is_ballot_def)

lemma is_ballot_nth: "is_ballot row \<Longrightarrow> p < 5 \<Longrightarrow> row ! p < 5"
  using is_ballot_bound[of row "row ! p"] is_ballot_length[of row] by simp

lemma column_ballot_set:
  "ballot_set preferences \<Longrightarrow> pos < 5 \<Longrightarrow>
   column preferences pos = Inr (map (\<lambda>row. row ! pos) preferences)"
  by (auto simp: column_def ballot_set_def list_all_iff is_ballot_length)

lemma fold_max_Suc_bounded:
  "\<forall>x \<in> set xs. x < m \<Longrightarrow> fold (\<lambda>x m. max (Suc x) m) xs m = m"
  by (induction xs) (auto simp: max_def)

lemma bincount_bounded:
  "\<forall>x \<in> set xs. x < m \<Longrightarrow> bincount xs m = map (count_list xs) [0..<m]"
  by (simp add: bincount_def fold_max_Suc_bounded)

lemma sum_list_bincount:
  assumes "\<forall>x \<in> set xs. x < m"
  shows "sum_list (bincount xs m) = length xs"
proof -
  have "sum_list (map (count_list xs) [0..<m]) = sum (count_list xs) {0..<m}"
    by (simp add: interv_sum_list_conv_sum_set_nat)
  also have "\<dots> = length xs"
    using assms by (intro sum_count_set) auto
  finally show ?thesis using assms by (simp add: bincount_bounded)
qed

lemma amax_Max: "xs \<noteq> [] \<Longrightarrow> amax xs = Max (set xs)"
proof (cases xs)
  case Nil
  assume "xs \<noteq> []"
  with Nil show ?thesis by simp
next
  case (Cons a list)
  then show ?thesis using Max.set_eq_fold[of a list] by (simp add: amax_def)
qed

lemma tiebreak_Min: "cs \<noteq> [] \<Longrightarrow> alphabetical_tiebreak cs = Inr (Min (set cs))"
proof (cases cs)
  case Nil
  assume "cs \<noteq> []"
  with Nil show ?thesis by simp
next
  case (Cons a list)
  then show ?thesis using Min.set_eq_fold[of a list] by (simp add: alphabetical_tiebreak_def)
qed

lemma tiebreak_of_maximum:
  assumes "xs \<noteq> []"
  shows "\<exists>w. alphabetical_tiebreak (flatnonzero (map (\<lambda>x. x = amax xs) xs)) = Inr w \<and>
           w < length xs \<and> (\<forall>i < length xs. xs ! i \<le> xs ! w) \<and>
           (\<forall>i < length xs. xs ! i = xs ! w \<longrightarrow> w \<le> i)"
proof -
  define tied where "tied = flatnonzero (map (\<lambda>x. x = amax xs) xs)"
  define w where "w = Min (set tied)"
  have tied: "i \<in> set tied \<longleftrightarrow> i < length xs \<and> xs ! i = Max (set xs)" for i
    using assms by (auto simp: tied_def flatnonzero_def amax_Max)
  have "Max (set xs) \<in> set xs" using assms by simp
  then obtain j where "j < length xs" "xs ! j = Max (set xs)"
    by (auto simp: in_set_conv_nth)
  then have j: "j \<in> set tied" by (simp add: tied)
  then have ne: "tied \<noteq> []" by auto
  then have tb: "alphabetical_tiebreak tied = Inr w" unfolding w_def by (rule tiebreak_Min)
  have "w \<in> set tied" unfolding w_def using j by (intro Min_in) auto
  then have w: "w < length xs" "xs ! w = Max (set xs)" by (simp_all add: tied)
  have le: "xs ! i \<le> xs ! w" if "i < length xs" for i
    using that w by simp
  have least: "w \<le> i" if "i < length xs" "xs ! i = xs ! w" for i
  proof -
    from that w have "i \<in> set tied" by (simp add: tied)
    then show ?thesis unfolding w_def by simp
  qed
  show ?thesis using tb w(1) le least unfolding tied_def by blast
qed

lemma Plurality_counts:
  assumes "ballot_set preferences" "c < 5"
  shows "bincount (map (\<lambda>row. row ! 0) preferences) 5 ! c = first_place_count preferences c"
proof -
  have b: "\<forall>x \<in> set (map (\<lambda>row. row ! 0) preferences). x < 5"
    using assms(1) by (auto simp: ballot_set_def is_ballot_nth)
  have "count_list (map f xs) c = length (filter (\<lambda>x. f x = c) xs)" for f :: "nat list \<Rightarrow> nat" and xs
    by (induction xs) auto
  then show ?thesis using assms(2) by (simp add: bincount_bounded[OF b] first_place_count_def)
qed

section \<open>Borda scores of a ballot set\<close>

lemma upt_5: "[0..<5] = [0, 1, 2, 3, 4]"
  by (simp add: numeral_eq_Suc)

lemma length_5_cases:
  assumes "length (row :: 'a list) = 5"
  obtains a b c d e where "row = [a, b, c, d, e]"
proof -
  from assms obtain a r1 where 1: "row = a # r1" "length r1 = 4" by (cases row) auto
  then obtain b r2 where 2: "r1 = b # r2" "length r2 = 3" by (cases r1) auto
  then obtain c r3 where 3: "r2 = c # r3" "length r3 = 2" by (cases r2) auto
  then obtain d r4 where 4: "r3 = d # r4" "length r4 = 1" by (cases r3) auto
  then obtain e where 5: "r4 = [e]" by (cases r4) auto
  show ?thesis using 1 2 3 4 5 that by simp
qed

lemma borda_scores_ballot_set:
  assumes "ballot_set preferences" "\<forall>p \<in> set ps. p < 5" "length scores = 5"
  shows "borda_scores preferences ps scores =
           Inr (map (\<lambda>c. scores ! c +
                  sum_list (map (\<lambda>p. count_list (map (\<lambda>row. row ! p) preferences) c *
                                   (position_points ! p)) ps)) [0..<5])"
  using assms(2,3)
proof (induction ps arbitrary: scores)
  case Nil
  then show ?case by (simp add: upt_5 list_eq_iff_nth_eq nth_Cons' less_Suc_eq numeral_eq_Suc)
next
  case (Cons p ps)
  let ?col = "map (\<lambda>row. row ! p) preferences"
  have p: "p < 5" using Cons.prems by simp
  have col: "column preferences p = Inr ?col" using assms(1) p by (rule column_ballot_set)
  have b: "\<forall>x \<in> set ?col. x < 5"
    using assms(1) p by (auto simp: ballot_set_def is_ballot_nth)
  have counts: "bincount ?col 5 = map (count_list ?col) [0..<5]"
    using b by (rule bincount_bounded)
  let ?scores' = "map (\<lambda>(s, c). s + c * (position_points ! p)) (zip scores (bincount ?col 5))"
  have len: "length ?scores' = 5" using Cons.prems by (simp add: counts)
  have nth: "?scores' ! c = scores ! c + count_list ?col c * (position_points ! p)" if "c < 5" for c
    using that Cons.prems by (simp add: counts)
  have "borda_scores preferences (p # ps) scores = borda_scores preferences ps ?scores'"
    using Cons.prems by (simp add: col counts Let_def)
  also have "\<dots> = Inr (map (\<lambda>c. ?scores' ! c +
                  sum_list (map (\<lambda>p. count_list (map (\<lambda>row. row ! p) preferences) c *
                                   (position_points ! p)) ps)) [0..<5])"
    using Cons.prems len by (intro Cons.IH) auto
  also have "\<dots> = Inr (map (\<lambda>c. scores ! c +
                  sum_list (map (\<lambda>p. count_list (map (\<lambda>row. row ! p) preferences) c *
                                   (position_points ! p)) (p # ps))) [0..<5])"
    by (simp add: nth)
  finally show ?case .
qed

lemma ballot_points:
  assumes "is_ballot row" "c < 5"
  shows "sum_list (map (\<lambda>p. (if row ! p = c then 1 else 0) * (position_points ! p)) [0..<5])
           = 4 - rank_of row c"
proof -
  from is_ballot_length[OF assms(1)] obtain a b d e f where row: "row = [a, b, d, e, f]"
    by (rule length_5_cases)
  have mem: "c \<in> set row" and dist: "distinct row" using assms by (simp_all add: is_ballot_def)
  from mem consider "c = a" | "c = b" | "c = d" | "c = e" | "c = f" unfolding row by auto
  then show ?thesis
  proof cases
    case 1 then show ?thesis using dist unfolding row
      by (auto simp: upt_5 rank_of_def position_points_def)
  next
    case 2 then show ?thesis using dist unfolding row
      by (auto simp: upt_5 rank_of_def position_points_def)
  next
    case 3 then show ?thesis using dist unfolding row
      by (auto simp: upt_5 rank_of_def position_points_def)
  next
    case 4 then show ?thesis using dist unfolding row
      by (auto simp: upt_5 rank_of_def position_points_def)
  next
    case 5 then show ?thesis using dist unfolding row
      by (auto simp: upt_5 rank_of_def position_points_def)
  qed
qed

lemma borda_tally_eq_score:
  assumes "ballot_set preferences" "c < 5"
  shows "sum_list (map (\<lambda>p. count_list (map (\<lambda>row. row ! p) preferences) c *
                          (position_points ! p)) [0..<5]) = borda_score preferences c"
  using assms(1)
proof (induction preferences)
  case Nil
  show ?case by (simp add: borda_score_def upt_5)
next
  case (Cons row rows)
  have row: "is_ballot row" and rows: "ballot_set rows"
    using Cons.prems by (simp_all add: ballot_set_def)
  have "sum_list (map (\<lambda>p. count_list (map (\<lambda>r. r ! p) (row # rows)) c * (position_points ! p)) [0..<5])
      = sum_list (map (\<lambda>p. (if row ! p = c then 1 else 0) * (position_points ! p)) [0..<5])
        + sum_list (map (\<lambda>p. count_list (map (\<lambda>r. r ! p) rows) c * (position_points ! p)) [0..<5])"
    by (simp add: upt_5 algebra_simps)
  also have "\<dots> = (4 - rank_of row c) + borda_score rows c"
    using ballot_points[OF row assms(2)] Cons.IH[OF rows] by simp
  finally show ?case by (simp add: borda_score_def)
qed

lemma Borda_scores_value:
  assumes "ballot_set preferences"
  shows "borda_scores preferences [0..<5] (replicate 5 0) =
           Inr (map (borda_score preferences) [0..<5])"
proof -
  have "borda_scores preferences [0..<5] (replicate 5 0) =
          Inr (map (\<lambda>c. replicate 5 0 ! c +
                  sum_list (map (\<lambda>p. count_list (map (\<lambda>row. row ! p) preferences) c *
                                   (position_points ! p)) [0..<5])) [0..<5])"
    using assms by (intro borda_scores_ballot_set) auto
  also have "\<dots> = Inr (map (borda_score preferences) [0..<5])"
    using borda_tally_eq_score[OF assms] by simp
  finally show ?thesis .
qed

lemma borda_tally_total:
  assumes "ballot_set preferences"
  shows "sum_list (map (\<lambda>c. sum_list (map (\<lambda>p. count_list (map (\<lambda>row. row ! p) preferences) c *
                          (position_points ! p)) [0..<5])) [0..<5]) = length preferences * 10"
proof -
  have col: "sum_list (map (count_list (map (\<lambda>row. row ! p) preferences)) [0..<5])
               = length preferences" if "p < 5" for p
  proof -
    have "\<forall>x \<in> set (map (\<lambda>row. row ! p) preferences). x < 5"
      using assms that by (auto simp: ballot_set_def is_ballot_nth)
    from sum_list_bincount[OF this] bincount_bounded[OF this] show ?thesis by simp
  qed
  have "4 < (5::nat)" "3 < (5::nat)" "2 < (5::nat)" "1 < (5::nat)" "0 < (5::nat)" by simp_all
  note cols = this[THEN col, unfolded upt_5, simplified]
  show ?thesis
    using cols by (simp add: upt_5 position_points_def)
qed

lemma borda_score_total:
  assumes "ballot_set preferences"
  shows "sum_list (map (borda_score preferences) [0..<5]) = length preferences * 10"
proof -
  have "map (borda_score preferences) [0..<5] =
        map (\<lambda>c. sum_list (map (\<lambda>p. count_list (map (\<lambda>row. row ! p) preferences) c *
                          (position_points ! p)) [0..<5])) [0..<5]"
    by (rule map_cong) (simp_all add: borda_tally_eq_score[OF assms])
  then show ?thesis using borda_tally_total[OF assms] by (simp only:)
qed

section \<open>Plurality and Borda on a ballot set\<close>

lemma Plurality_compute_ballot_set:
  assumes "ballot_set preferences"
  shows "\<exists>w tie. Plurality_compute preferences =
             Inr \<lparr>winner = Some w,
                  aux = [(''counts'', PyList (map (first_place_count preferences) [0..<5])),
                         (''tie'', PyBool tie)]\<rparr> \<and>
           w < 5 \<and>
           (\<forall>c < 5. first_place_count preferences c \<le> first_place_count preferences w) \<and>
           (\<forall>c < 5. first_place_count preferences c = first_place_count preferences w \<longrightarrow> w \<le> c)"
proof -
  let ?fc = "map (\<lambda>row. row ! 0) preferences"
  define counts where "counts = map (first_place_count preferences) [0..<5]"
  have col: "column preferences 0 = Inr ?fc" using assms by (intro column_ballot_set) simp_all
  have b: "\<forall>x \<in> set ?fc. x < 5"
    using assms by (auto simp: ballot_set_def is_ballot_nth)
  have counts: "bincount ?fc 5 = counts"
  proof (rule nth_equalityI)
    show "length (bincount ?fc 5) = length counts" by (simp add: bincount_bounded[OF b] counts_def)
  next
    fix i assume "i < length (bincount ?fc 5)"
    then have "i < 5" by (simp add: bincount_bounded[OF b])
    then show "bincount ?fc 5 ! i = counts ! i"
      using Plurality_counts[OF assms, of i] by (simp add: counts_def)
  qed
  have len: "length counts = 5" by (simp add: counts_def)
  then have "counts \<noteq> []" by auto
  from tiebreak_of_maximum[OF this] obtain w where
    w: "alphabetical_tiebreak (flatnonzero (map (\<lambda>x. x = amax counts) counts)) = Inr w"
       "w < length counts" "\<forall>i < length counts. counts ! i \<le> counts ! w"
       "\<forall>i < length counts. counts ! i = counts ! w \<longrightarrow> w \<le> i"
    by blast
  have "Plurality_compute preferences =
          Inr \<lparr>winner = Some w,
               aux = [(''counts'', PyList counts),
                      (''tie'', PyBool (length (flatnonzero (map (\<lambda>c. c = amax counts) counts)) > 1))]\<rparr>"
    by (simp add: Plurality_compute_def col counts Let_def w(1))
  moreover have "w < 5" using w(2) len by simp
  moreover have "\<forall>c < 5. first_place_count preferences c \<le> first_place_count preferences w"
    using w(2,3) len by (simp add: counts_def)
  moreover have "\<forall>c < 5. first_place_count preferences c = first_place_count preferences w \<longrightarrow> w \<le> c"
    using w(2,4) len by (simp add: counts_def)
  ultimately show ?thesis unfolding counts_def by blast
qed

lemma Borda_compute_ballot_set:
  assumes "ballot_set preferences"
  shows "\<exists>w tie. Borda_compute preferences =
             Inr \<lparr>winner = Some w,
                  aux = [(''scores'', PyList (map (borda_score preferences) [0..<5])),
                         (''total_points'', PyInt (length preferences * 10)),
                         (''expected_total_points'', PyInt (length preferences * 10)),
                         (''tie'', PyBool tie)]\<rparr> \<and>
           w < 5 \<and>
           (\<forall>c < 5. borda_score preferences c \<le> borda_score preferences w) \<and>
           (\<forall>c < 5. borda_score preferences c = borda_score preferences w \<longrightarrow> w \<le> c)"
proof -
  define scores where "scores = map (borda_score preferences) [0..<5]"
  have sc: "borda_scores preferences [0..<5] (replicate 5 0) = Inr scores"
    unfolding scores_def using assms by (rule Borda_scores_value)
  have len: "length scores = 5" by (simp add: scores_def)
  then have "scores \<noteq> []" by auto
  from tiebreak_of_maximum[OF this] obtain w where
    w: "alphabetical_tiebreak (flatnonzero (map (\<lambda>x. x = amax scores) scores)) = Inr w"
       "w < length scores" "\<forall>i < length scores. scores ! i \<le> scores ! w"
       "\<forall>i < length scores. scores ! i = scores ! w \<longrightarrow> w \<le> i"
    by blast
  have total: "sum_list scores = length preferences * 10"
    unfolding scores_def using assms by (rule borda_score_total)
  have "Borda_compute preferences =
             Inr \<lparr>winner = Some w,
                  aux = [(''scores'', PyList scores),
                         (''total_points'', PyInt (length preferences * 10)),
                         (''expected_total_points'', PyInt (length preferences * 10)),
                         (''tie'', PyBool (length (flatnonzero (map (\<lambda>c. c = amax scores) scores)) > 1))]\<rparr>"
    by (simp add: Borda_compute_def sc Let_def w(1) total)
  moreover have "w < 5" using w(2) len by simp
  moreover have "\<forall>c < 5. borda_score preferences c \<le> borda_score preferences w"
    using w(2,3) len by (simp add: scores_def)
  moreover have "\<forall>c < 5. borda_score preferences c = borda_score preferences w \<longrightarrow> w \<le> c"
    using w(2,4) len by (simp add: scores_def)
  ultimately show ?thesis unfolding scores_def by blast
qed

text \<open>
  Claim C2. On a ballot set of \<open>n\<close> ballots, \<open>BordaRule.compute\<close> returns a result whose
  per-candidate scores sum to \<open>n * 10\<close>, and whose fields \<open>total_points\<close> and
  \<open>expected_total_points\<close> both hold \<open>n * 10\<close>.
\<close>

theorem Borda_total_points:
  assumes "ballot_set preferences"
  shows "\<exists>result scores. Borda_compute preferences = Inr result \<and>
           map_of (aux result) ''scores'' = Some (PyList scores) \<and>
           sum_list scores = length preferences * 10 \<and>
           map_of (aux result) ''total_points'' = Some (PyInt (length preferences * 10)) \<and>
           map_of (aux result) ''expected_total_points'' = Some (PyInt (length preferences * 10))"
proof -
  from Borda_compute_ballot_set[OF assms] obtain w tie where
    "Borda_compute preferences =
             Inr \<lparr>winner = Some w,
                  aux = [(''scores'', PyList (map (borda_score preferences) [0..<5])),
                         (''total_points'', PyInt (length preferences * 10)),
                         (''expected_total_points'', PyInt (length preferences * 10)),
                         (''tie'', PyBool tie)]\<rparr>"
    by blast
  then show ?thesis using borda_score_total[OF assms] by simp
qed

theorem Borda_total_points_witness:
  "ballot_set [[0, 1, 2, 3, 4], [1, 0, 2, 3, 4], [2, 0, 1, 3, 4]] \<and>
   (\<exists>result scores.
      Borda_compute [[0, 1, 2, 3, 4], [1, 0, 2, 3, 4], [2, 0, 1, 3, 4]] = Inr result \<and>
      map_of (aux result) ''scores'' = Some (PyList scores) \<and>
      sum_list scores = 30 \<and>
      map_of (aux result) ''total_points'' = Some (PyInt 30) \<and>
      map_of (aux result) ''expected_total_points'' = Some (PyInt 30))"
proof -
  have h: "ballot_set [[0, 1, 2, 3, 4], [1, 0, 2, 3, 4], [2, 0, 1, 3, 4]]"
    by (auto simp: ballot_set_def is_ballot_def)
  show ?thesis using h Borda_total_points[OF h] by simp
qed

text \<open>
  Claim C5. On every ballot set, the empty one included, \<open>PluralityRule.compute\<close> returns a
  winner that is present and is the smallest candidate among those with the maximal
  first-place count, and \<open>BordaRule.compute\<close> returns a winner that is present and is the
  smallest candidate among those with the maximal Borda score.
\<close>

theorem Plurality_Borda_winner_defined:
  assumes "ballot_set preferences"
  shows "\<exists>pr w br v.
           Plurality_compute preferences = Inr pr \<and> winner pr = Some w \<and> w < 5 \<and>
           (\<forall>c < 5. first_place_count preferences c \<le> first_place_count preferences w) \<and>
           (\<forall>c < 5. first_place_count preferences c = first_place_count preferences w \<longrightarrow> w \<le> c) \<and>
           Borda_compute preferences = Inr br \<and> winner br = Some v \<and> v < 5 \<and>
           (\<forall>c < 5. borda_score preferences c \<le> borda_score preferences v) \<and>
           (\<forall>c < 5. borda_score preferences c = borda_score preferences v \<longrightarrow> v \<le> c)"
proof -
  from Plurality_compute_ballot_set[OF assms] obtain pr w where
    p: "Plurality_compute preferences = Inr pr" "winner pr = Some w" "w < 5"
       "\<forall>c < 5. first_place_count preferences c \<le> first_place_count preferences w"
       "\<forall>c < 5. first_place_count preferences c = first_place_count preferences w \<longrightarrow> w \<le> c"
    by fastforce
  from Borda_compute_ballot_set[OF assms] obtain br v where
    b: "Borda_compute preferences = Inr br" "winner br = Some v" "v < 5"
       "\<forall>c < 5. borda_score preferences c \<le> borda_score preferences v"
       "\<forall>c < 5. borda_score preferences c = borda_score preferences v \<longrightarrow> v \<le> c"
    by fastforce
  show ?thesis using p b by blast
qed

theorem Plurality_Borda_winner_defined_witness:
  "ballot_set [[1, 0, 2, 3, 4], [2, 0, 1, 3, 4]] \<and>
   (\<exists>pr w br v.
      Plurality_compute [[1, 0, 2, 3, 4], [2, 0, 1, 3, 4]] = Inr pr \<and> winner pr = Some w \<and> w < 5 \<and>
      (\<forall>c < 5. first_place_count [[1, 0, 2, 3, 4], [2, 0, 1, 3, 4]] c
                 \<le> first_place_count [[1, 0, 2, 3, 4], [2, 0, 1, 3, 4]] w) \<and>
      (\<forall>c < 5. first_place_count [[1, 0, 2, 3, 4], [2, 0, 1, 3, 4]] c
                 = first_place_count [[1, 0, 2, 3, 4], [2, 0, 1, 3, 4]] w \<longrightarrow> w \<le> c) \<and>
      Borda_compute [[1, 0, 2, 3, 4], [2, 0, 1, 3, 4]] = Inr br \<and> winner br = Some v \<and> v < 5 \<and>
      (\<forall>c < 5. borda_score [[1, 0, 2, 3, 4], [2, 0, 1, 3, 4]] c
                 \<le> borda_score [[1, 0, 2, 3, 4], [2, 0, 1, 3, 4]] v) \<and>
      (\<forall>c < 5. borda_score [[1, 0, 2, 3, 4], [2, 0, 1, 3, 4]] c
                 = borda_score [[1, 0, 2, 3, 4], [2, 0, 1, 3, 4]] v \<longrightarrow> v \<le> c))"
proof -
  have h: "ballot_set [[1, 0, 2, 3, 4], [2, 0, 1, 3, 4]]"
    by (auto simp: ballot_set_def is_ballot_def)
  show ?thesis using h Plurality_Borda_winner_defined[OF h] by blast
qed

section \<open>The pairwise matrix of a ballot set\<close>

lemma rank_of_Cons: "rank_of (x # xs) c = (if x = c then 0 else Suc (rank_of xs c))"
  by (simp add: rank_of_def)

lemma rank_of_less: "c \<in> set row \<Longrightarrow> rank_of row c < length row"
  by (induction row) (auto simp: rank_of_Cons)

lemma nth_rank_of: "c \<in> set row \<Longrightarrow> row ! rank_of row c = c"
  by (induction row) (auto simp: rank_of_Cons)

lemma rank_of_inject:
  "a \<in> set row \<Longrightarrow> b \<in> set row \<Longrightarrow> rank_of row a = rank_of row b \<Longrightarrow> a = b"
  by (metis nth_rank_of)

lemma fill_ranks_row_enumerate:
  assumes "distinct row" "\<forall>c \<in> set row. c < length r"
  shows "\<exists>r'. fill_ranks_row r (enumerate k row) = Inr r' \<and> length r' = length r \<and>
           (\<forall>c < length r. r' ! c = (if c \<in> set row then int (k + rank_of row c) else r ! c))"
  using assms
proof (induction row arbitrary: r k)
  case Nil
  then show ?case by simp
next
  case (Cons x xs)
  have x: "x < length r" "x \<notin> set xs" using Cons.prems by simp_all
  have "distinct xs" "\<forall>c \<in> set xs. c < length (r[x := int k])" using Cons.prems by simp_all
  from Cons.IH[OF this, of "Suc k"] obtain r' where
    r': "fill_ranks_row (r[x := int k]) (enumerate (Suc k) xs) = Inr r'"
        "length r' = length r"
        "\<forall>c < length r. r' ! c = (if c \<in> set xs then int (Suc k + rank_of xs c) else r[x := int k] ! c)"
    by auto
  have "fill_ranks_row r (enumerate k (x # xs)) = Inr r'" using x r'(1) by simp
  moreover have "\<forall>c < length r. r' ! c = (if c \<in> set (x # xs) then int (k + rank_of (x # xs) c) else r ! c)"
    using r'(3) x by (auto simp: rank_of_Cons)
  ultimately show ?case using r'(2) by blast
qed

lemma fill_ranks_row_ballot:
  assumes "is_ballot row" "length r = 5"
  shows "fill_ranks_row r (enumerate 0 row) = Inr (map (\<lambda>c. int (rank_of row c)) [0..<5])"
proof -
  have d: "distinct row" and s: "set row = {0..<5}" using assms(1) by (simp_all add: is_ballot_def)
  have "\<forall>c \<in> set row. c < length r" using s assms(2) by simp
  from fill_ranks_row_enumerate[OF d this, of 0] obtain r' where
    r': "fill_ranks_row r (enumerate 0 row) = Inr r'" "length r' = length r"
        "\<forall>c < length r. r' ! c = (if c \<in> set row then int (0 + rank_of row c) else r ! c)"
    by blast
  have "r' = map (\<lambda>c. int (rank_of row c)) [0..<5]"
  proof (rule nth_equalityI)
    show "length r' = length (map (\<lambda>c. int (rank_of row c)) [0..<5])"
      using r'(2) assms(2) by simp
  next
    fix c assume "c < length r'"
    then have c: "c < 5" using r'(2) assms(2) by simp
    then have "c \<in> set row" using s by simp
    then show "r' ! c = map (\<lambda>c. int (rank_of row c)) [0..<5] ! c"
      using r'(3) c assms(2) by simp
  qed
  then show ?thesis using r'(1) by simp
qed

lemma fill_ranks_ballot_set:
  assumes "ballot_set preferences"
  shows "fill_ranks uninit i preferences =
           Inr (map (\<lambda>row. map (\<lambda>c. int (rank_of row c)) [0..<5]) preferences)"
  using assms
proof (induction preferences arbitrary: i)
  case Nil
  show ?case by simp
next
  case (Cons row rows)
  have row: "is_ballot row" and rows: "ballot_set rows"
    using Cons.prems by (simp_all add: ballot_set_def)
  have "fill_ranks_row (map (uninit i) [0..<5]) (enumerate 0 row)
          = Inr (map (\<lambda>c. int (rank_of row c)) [0..<5])"
    using row by (rule fill_ranks_row_ballot) simp
  then show ?case using Cons.IH[OF rows] by simp
qed

lemma pairwise_wins_ballot_set:
  assumes "a < 5" "b < 5"
  shows "pairwise_wins (map (\<lambda>row. map (\<lambda>c. int (rank_of row c)) [0..<5]) preferences) ! a ! b
           = (if a = b then 0 else prefer_count preferences a b)"
proof -
  have "length (filter (\<lambda>r. r ! a < r ! b) (map (\<lambda>row. map (\<lambda>c. int (rank_of row c)) [0..<5]) preferences))
          = prefer_count preferences a b"
    using assms by (simp add: prefer_count_def filter_map comp_def)
  then show ?thesis using assms by (simp add: pairwise_wins_def)
qed

lemma prefer_count_complement:
  assumes "ballot_set preferences" "a < 5" "b < 5" "a \<noteq> b"
  shows "prefer_count preferences a b + prefer_count preferences b a = length preferences"
  using assms(1)
proof (induction preferences)
  case Nil
  show ?case by (simp add: prefer_count_def)
next
  case (Cons row rows)
  have row: "is_ballot row" and rows: "ballot_set rows"
    using Cons.prems by (simp_all add: ballot_set_def)
  have "a \<in> set row" "b \<in> set row" using row assms(2,3) by (simp_all add: is_ballot_def)
  then have "rank_of row a \<noteq> rank_of row b" using rank_of_inject assms(4) by blast
  then show ?case using Cons.IH[OF rows] by (auto simp: prefer_count_def)
qed

lemma prefer_count_le: "prefer_count preferences a b \<le> length preferences"
  by (simp add: prefer_count_def)

section \<open>Condorcet on a ballot set\<close>

lemma Condorcet_compute_ballot_set:
  assumes "ballot_set preferences"
  shows "\<exists>wins. Condorcet_compute uninit preferences =
             Inr \<lparr>winner = (if length (filter (beats_all_others (length preferences) wins) [0..<5]) = 1
                             then Some (filter (beats_all_others (length preferences) wins) [0..<5] ! 0)
                             else None),
                  aux = [(''wins'', PyMatrix wins)]\<rparr> \<and>
           (\<forall>a < 5. \<forall>b < 5. wins ! a ! b = (if a = b then 0 else prefer_count preferences a b))"
proof -
  define wins where
    "wins = pairwise_wins (map (\<lambda>row. map (\<lambda>c. int (rank_of row c)) [0..<5]) preferences)"
  have "Condorcet_compute uninit preferences =
             Inr \<lparr>winner = (if length (filter (beats_all_others (length preferences) wins) [0..<5]) = 1
                             then Some (filter (beats_all_others (length preferences) wins) [0..<5] ! 0)
                             else None),
                  aux = [(''wins'', PyMatrix wins)]\<rparr>"
    by (simp add: Condorcet_compute_def fill_ranks_ballot_set[OF assms] Let_def wins_def)
  moreover have "\<forall>a < 5. \<forall>b < 5. wins ! a ! b = (if a = b then 0 else prefer_count preferences a b)"
    unfolding wins_def using pairwise_wins_ballot_set by blast
  ultimately show ?thesis by blast
qed

lemma beats_all_others_iff:
  assumes "ballot_set preferences" "a < 5"
    and wins: "\<forall>a < 5. \<forall>b < 5. wins ! a ! b = (if a = b then 0 else prefer_count preferences a b)"
  shows "beats_all_others (length preferences) wins a \<longleftrightarrow> condorcet_winner preferences a"
proof -
  have "(int (wins ! a ! b) > int (length preferences) - int (wins ! a ! b))
          \<longleftrightarrow> prefer_count preferences b a < prefer_count preferences a b"
    if "b < 5" "b \<noteq> a" for b
    using prefer_count_complement[OF assms(1,2) that(1)] wins assms(2) that by auto
  then show ?thesis
    by (auto simp: beats_all_others_def condorcet_winner_def list_all_iff)
qed

lemma condorcet_winner_unique:
  assumes "condorcet_winner preferences a" "condorcet_winner preferences a'" "a < 5" "a' < 5"
  shows "a = a'"
proof (rule ccontr)
  assume ne: "a \<noteq> a'"
  have a: "a \<in> set [0..<5]" and a': "a' \<in> set [0..<5]" using assms(3,4) by simp_all
  have "prefer_count preferences a' a < prefer_count preferences a a'"
    using bspec[OF assms(1)[unfolded condorcet_winner_def] a'] ne by simp
  moreover have "prefer_count preferences a a' < prefer_count preferences a' a"
    using bspec[OF assms(2)[unfolded condorcet_winner_def] a] ne by simp
  ultimately show False by simp
qed

lemma filter_single:
  assumes "distinct xs" "a \<in> set xs" "P a" "\<forall>y \<in> set xs. P y \<longrightarrow> y = a"
  shows "filter P xs = [a]"
proof -
  from assms(2) obtain ys zs where xs: "xs = ys @ a # zs" by (auto simp: in_set_conv_decomp)
  have "a \<notin> set ys" "a \<notin> set zs" using assms(1) unfolding xs by simp_all
  then have "\<forall>y \<in> set ys. \<not> P y" "\<forall>y \<in> set zs. \<not> P y"
    using assms(4) unfolding xs by auto
  then have "filter P ys = []" "filter P zs = []" by (simp_all add: filter_empty_conv)
  then show ?thesis using assms(3) unfolding xs by simp
qed

lemma Condorcet_winner_ballot_set:
  assumes "ballot_set preferences"
  shows "\<exists>result wins. Condorcet_compute uninit preferences = Inr result \<and>
           aux result = [(''wins'', PyMatrix wins)] \<and>
           (\<forall>a < 5. \<forall>b < 5. wins ! a ! b = (if a = b then 0 else prefer_count preferences a b)) \<and>
           (\<forall>a. winner result = Some a \<longleftrightarrow> a < 5 \<and> condorcet_winner preferences a)"
proof -
  from Condorcet_compute_ballot_set[OF assms, of uninit] obtain wins where
    cc: "Condorcet_compute uninit preferences =
             Inr \<lparr>winner = (if length (filter (beats_all_others (length preferences) wins) [0..<5]) = 1
                             then Some (filter (beats_all_others (length preferences) wins) [0..<5] ! 0)
                             else None),
                  aux = [(''wins'', PyMatrix wins)]\<rparr>" and
    wins: "\<forall>a < 5. \<forall>b < 5. wins ! a ! b = (if a = b then 0 else prefer_count preferences a b)"
    by blast
  define beats_all where "beats_all = filter (beats_all_others (length preferences) wins) [0..<5]"
  define w_opt where "w_opt = (if length beats_all = 1 then Some (beats_all ! 0) else None)"
  have bao: "beats_all_others (length preferences) wins a \<longleftrightarrow> condorcet_winner preferences a"
    if "a < 5" for a
    using assms that wins by (rule beats_all_others_iff)
  have iff: "w_opt = Some a \<longleftrightarrow> a < 5 \<and> condorcet_winner preferences a" for a
  proof (cases "\<exists>w. w < 5 \<and> condorcet_winner preferences w")
    case True
    then obtain w where w: "w < 5" "condorcet_winner preferences w" by blast
    have uniq: "y = w" if "y < 5" "condorcet_winner preferences y" for y
      using that(2) w(2) that(1) w(1) by (rule condorcet_winner_unique)
    have "beats_all = [w]" unfolding beats_all_def
    proof (rule filter_single)
      show "distinct [0..<5]" by simp
      show "w \<in> set [0..<5]" using w by simp
      show "beats_all_others (length preferences) wins w"
        using bao[OF w(1)] w(2) by simp
      show "\<forall>y \<in> set [0..<5]. beats_all_others (length preferences) wins y \<longrightarrow> y = w"
        using bao uniq by simp
    qed
    then have "w_opt = Some w" by (simp add: w_opt_def)
    then show ?thesis using w uniq by blast
  next
    case False
    have "\<forall>y \<in> set [0..<5]. \<not> beats_all_others (length preferences) wins y"
      using bao False by simp
    then have "beats_all = []" unfolding beats_all_def by (simp only: filter_empty_conv simp_thms)
    then have "w_opt = None" by (simp add: w_opt_def)
    then show ?thesis using False by simp
  qed
  have "Condorcet_compute uninit preferences = Inr \<lparr>winner = w_opt, aux = [(''wins'', PyMatrix wins)]\<rparr>"
    unfolding w_opt_def beats_all_def by (rule cc)
  moreover have "aux \<lparr>winner = w_opt, aux = [(''wins'', PyMatrix wins)]\<rparr> = [(''wins'', PyMatrix wins)]"
    by simp
  moreover have "\<forall>a. winner \<lparr>winner = w_opt, aux = [(''wins'', PyMatrix wins)]\<rparr> = Some a
                   \<longleftrightarrow> a < 5 \<and> condorcet_winner preferences a"
    using iff by simp
  ultimately show ?thesis using wins by blast
qed





section \<open>Instant runoff on a ballot set\<close>

lemma length_active_of [simp]: "length (active_of eo) = 5"
  by (simp add: active_of_def)

lemma nth_active_of [simp]: "c < 5 \<Longrightarrow> active_of eo ! c = (c \<notin> set eo)"
  by (simp add: active_of_def)

lemma top_active_active_of:
  "\<forall>x \<in> set row. x < 5 \<Longrightarrow> top_active (active_of eo) row = Inr (find (\<lambda>x. x \<notin> set eo) row)"
  by (induction row) simp_all

lemma find_ballot:
  assumes "is_ballot row" "c < 5" "c \<notin> set eo"
  shows "\<exists>t. find (\<lambda>x. x \<notin> set eo) row = Some t \<and> t < 5 \<and> t \<notin> set eo"
proof -
  have "c \<in> set row" using assms(1,2) by (simp add: is_ballot_def)
  then have "find (\<lambda>x. x \<notin> set eo) row \<noteq> None" using assms(3) by (auto simp: find_None_iff)
  then obtain t where t: "find (\<lambda>x. x \<notin> set eo) row = Some t" by blast
  then have "t \<in> set row" "t \<notin> set eo" by (auto simp: find_Some_iff)
  then show ?thesis using t is_ballot_bound[OF assms(1)] by blast
qed

lemma first_choices_of_ballot_set:
  assumes "ballot_set preferences" "c < 5" "c \<notin> set eo"
  shows "\<exists>fc. first_choices_of (active_of eo) preferences = Inr fc \<and>
           length fc = length preferences \<and>
           (\<forall>x \<in> set fc. x < 5 \<and> x \<notin> set eo) \<and>
           (\<forall>d. count_list fc d =
              length (filter (\<lambda>row. find (\<lambda>x. x \<notin> set eo) row = Some d) preferences))"
  using assms(1)
proof (induction preferences)
  case Nil
  show ?case by simp
next
  case (Cons row rows)
  have row: "is_ballot row" and rows: "ballot_set rows"
    using Cons.prems by (simp_all add: ballot_set_def)
  from Cons.IH[OF rows] obtain fc where
    fc: "first_choices_of (active_of eo) rows = Inr fc" "length fc = length rows"
        "\<forall>x \<in> set fc. x < 5 \<and> x \<notin> set eo"
        "\<forall>d. count_list fc d = length (filter (\<lambda>row. find (\<lambda>x. x \<notin> set eo) row = Some d) rows)"
    by blast
  from find_ballot[OF row assms(2,3)] obtain t where
    t: "find (\<lambda>x. x \<notin> set eo) row = Some t" "t < 5" "t \<notin> set eo" by blast
  have "top_active (active_of eo) row = Inr (Some t)"
    using top_active_active_of[of row eo] is_ballot_bound[OF row] t(1) by simp
  then have "first_choices_of (active_of eo) (row # rows) = Inr (t # fc)"
    using fc(1) by simp
  moreover have "length (t # fc) = length (row # rows)" using fc(2) by simp
  moreover have "\<forall>x \<in> set (t # fc). x < 5 \<and> x \<notin> set eo" using fc(3) t by simp
  moreover have "\<forall>d. count_list (t # fc) d =
      length (filter (\<lambda>row. find (\<lambda>x. x \<notin> set eo) row = Some d) (row # rows))"
    using fc(4) t(1) by simp
  ultimately show ?case by blast
qed

lemma argmax_props:
  assumes "xs \<noteq> []"
  shows "argmax xs < length xs \<and> xs ! argmax xs = amax xs"
proof -
  define tied where "tied = flatnonzero (map (\<lambda>x. x = amax xs) xs)"
  have tied: "i \<in> set tied \<longleftrightarrow> i < length xs \<and> xs ! i = Max (set xs)" for i
    using assms by (auto simp: tied_def flatnonzero_def amax_Max)
  have "Max (set xs) \<in> set xs" using assms by simp
  then obtain j where "j < length xs" "xs ! j = Max (set xs)"
    by (auto simp: in_set_conv_nth)
  then have "j \<in> set tied" by (simp add: tied)
  then have "tied \<noteq> []" by auto
  then have "hd tied \<in> set tied" by simp
  then have "hd tied < length xs \<and> xs ! hd tied = Max (set xs)" by (simp add: tied)
  then show ?thesis using assms by (simp add: argmax_def tied_def amax_Max)
qed

lemma active_of_update:
  assumes "elim < 5"
  shows "(active_of eo)[elim := False] = active_of (eo @ [elim])"
proof (rule nth_equalityI)
  show "length ((active_of eo)[elim := False]) = length (active_of (eo @ [elim]))" by simp
next
  fix i assume "i < length ((active_of eo)[elim := False])"
  then have "i < 5" by simp
  then show "(active_of eo)[elim := False] ! i = active_of (eo @ [elim]) ! i"
    using assms by (cases "i = elim") simp_all
qed

lemma flatnonzero_active_of:
  "flatnonzero (active_of eo) = filter (\<lambda>c. c \<notin> set eo) [0..<5]"
  unfolding flatnonzero_def by (rule filter_cong) simp_all

lemma count_active_of:
  assumes "distinct eo" "set eo \<subseteq> {0..<5::nat}"
  shows "length (filter id (active_of eo)) = 5 - length eo"
proof -
  have "length (filter id (active_of eo)) = length (filter (\<lambda>c. c \<notin> set eo) [0..<5])"
    by (simp add: active_of_def filter_map comp_def)
  also have "\<dots> = card (set (filter (\<lambda>c. c \<notin> set eo) [0..<5]))"
    by (rule distinct_card[symmetric]) simp
  also have "set (filter (\<lambda>c. c \<notin> set eo) [0..<5]) = {0..<5} - set eo" by auto
  also have "card ({0..<5} - set eo) = card {0..<5::nat} - card (set eo)"
    using assms(2) by (intro card_Diff_subset) auto
  also have "\<dots> = 5 - length eo" using assms(1) by (simp add: distinct_card)
  finally show ?thesis .
qed

lemma exists_active:
  assumes "distinct eo" "set eo \<subseteq> {0..<5::nat}" "length eo \<le> 4"
  shows "\<exists>c < 5. c \<notin> set eo"
proof (rule ccontr)
  assume "\<not> (\<exists>c < 5. c \<notin> set eo)"
  then have "{0..<5} \<subseteq> set eo" by auto
  then have "card {0..<5::nat} \<le> card (set eo)" by (intro card_mono) auto
  then show False using assms(1,3) by (simp add: distinct_card)
qed

lemma last_standing:
  assumes "distinct eo" "set eo \<subseteq> {0..<5::nat}" "length eo = 4"
  shows "\<exists>w. flatnonzero (active_of eo) = [w] \<and> w < 5 \<and> w \<notin> set eo \<and>
           insert w (set eo) = {0..<5}"
proof -
  from exists_active[OF assms(1,2)] assms(3) obtain w where w: "w < 5" "w \<notin> set eo" by auto
  have "card (insert w (set eo)) = 5" using w(2) assms(1,3) by (simp add: distinct_card)
  moreover have "insert w (set eo) \<subseteq> {0..<5}" using w(1) assms(2) by simp
  ultimately have eq: "insert w (set eo) = {0..<5}"
    by (intro card_subset_eq) simp_all
  have "filter (\<lambda>c. c \<notin> set eo) [0..<5] = [w]"
  proof (rule filter_single)
    show "distinct [0..<5]" by simp
    show "w \<in> set [0..<5]" using w by simp
    show "w \<notin> set eo" by (rule w(2))
    show "\<forall>y \<in> set [0..<5]. y \<notin> set eo \<longrightarrow> y = w" using eq by auto
  qed
  then show ?thesis using w eq by (simp add: flatnonzero_active_of)
qed

lemma round_tally:
  assumes "ballot_set preferences" "distinct eo" "set eo \<subseteq> {0..<5::nat}" "length eo \<le> 4"
  shows "\<exists>fc. first_choices_of (active_of eo) preferences = Inr fc \<and>
           length fc = length preferences \<and>
           (\<forall>x \<in> set fc. x < 5 \<and> x \<notin> set eo) \<and>
           bincount fc 5 = round_counts preferences eo"
proof -
  from exists_active[OF assms(2,3,4)] obtain c where c: "c < 5" "c \<notin> set eo" by blast
  from first_choices_of_ballot_set[OF assms(1) c] obtain fc where
    fc: "first_choices_of (active_of eo) preferences = Inr fc" "length fc = length preferences"
        "\<forall>x \<in> set fc. x < 5 \<and> x \<notin> set eo"
        "\<forall>d. count_list fc d =
              length (filter (\<lambda>row. find (\<lambda>x. x \<notin> set eo) row = Some d) preferences)"
    by blast
  have "\<forall>x \<in> set fc. x < 5" using fc(3) by simp
  then have "bincount fc 5 = map (count_list fc) [0..<5]" by (rule bincount_bounded)
  also have "\<dots> = round_counts preferences eo" using fc(4) by (simp add: round_counts_def)
  finally show ?thesis using fc(1,2,3) by blast
qed

lemma masked_minimum:
  assumes "length (counts :: nat list) = 5" "c < 5" "c \<notin> set eo"
  defines "masked \<equiv> map fst (filter snd (zip counts (active_of eo)))"
  shows "masked \<noteq> [] \<and>
         (\<exists>elim. alphabetical_tiebreak
                    (filter (\<lambda>c. active_of eo ! c \<and> counts ! c = fold min (tl masked) (hd masked)) [0..<5])
                  = Inr elim \<and> elim < 5 \<and> elim \<notin> set eo)"
proof -
  have mem: "x \<in> set masked \<longleftrightarrow> (\<exists>i < 5. x = counts ! i \<and> i \<notin> set eo)" for x
  proof
    assume "x \<in> set masked"
    then obtain b where "(x, b) \<in> set (zip counts (active_of eo))" "b"
      unfolding masked_def by auto
    then obtain i where "i < 5" "x = counts ! i" "active_of eo ! i"
      using assms(1) by (auto simp: set_zip)
    then show "\<exists>i < 5. x = counts ! i \<and> i \<notin> set eo" by auto
  next
    assume "\<exists>i < 5. x = counts ! i \<and> i \<notin> set eo"
    then obtain i where i: "i < 5" "x = counts ! i" "i \<notin> set eo" by blast
    then have "(x, True) \<in> set (zip counts (active_of eo))"
      using assms(1) by (auto simp: set_zip)
    then show "x \<in> set masked" unfolding masked_def by force
  qed
  have "counts ! c \<in> set masked" using assms(2,3) mem by blast
  then have ne: "masked \<noteq> []" by auto
  define min_count where "min_count = fold min (tl masked) (hd masked)"
  have "min_count \<in> set (hd masked # tl masked)" unfolding min_count_def by (rule fold_min_in_set)
  then have "min_count \<in> set masked" using ne by simp
  then obtain i where i: "i < 5" "min_count = counts ! i" "i \<notin> set eo" using mem by blast
  define cands_min where
    "cands_min = filter (\<lambda>c. active_of eo ! c \<and> counts ! c = min_count) [0..<5]"
  have "i \<in> set cands_min" using i by (simp add: cands_min_def)
  then have "cands_min \<noteq> []" by auto
  then obtain elim where elim: "alphabetical_tiebreak cands_min = Inr elim"
    using tiebreak_Min by blast
  from alphabetical_tiebreak_in_set[OF this] have "elim < 5 \<and> active_of eo ! elim"
    by (simp add: cands_min_def)
  then have "elim < 5" "elim \<notin> set eo" by auto
  then show ?thesis using ne elim unfolding cands_min_def min_count_def by blast
qed

lemma length_round_counts [simp]: "length (round_counts preferences eo) = 5"
  by (simp add: round_counts_def)

lemma irv_round_exhausted:
  "irv_round [] active eo =
     Inr (Return \<lparr>winner = None, aux = [(''elimination_order'', PyList eo)]\<rparr>)"
  by (simp add: irv_round_def)

lemma irv_round_majority:
  assumes "ballot_set preferences" "distinct eo" "set eo \<subseteq> {0..<5::nat}" "length eo \<le> 3"
    and ne: "preferences \<noteq> []"
    and maj: "amax (round_counts preferences eo) * 2 > length preferences"
  shows "irv_round preferences (active_of eo) eo =
           Inr (Return \<lparr>winner = Some (argmax (round_counts preferences eo)),
                        aux = [(''counts'', PyList (round_counts preferences eo)),
                               (''elimination_order'', PyList eo)]\<rparr>)"
    and "argmax (round_counts preferences eo) < 5"
    and "argmax (round_counts preferences eo) \<notin> set eo"
proof -
  define counts where "counts = round_counts preferences eo"
  have le4: "length eo \<le> 4" using assms(4) by simp
  from round_tally[OF assms(1,2,3) le4] obtain fc where
    fc: "first_choices_of (active_of eo) preferences = Inr fc" "length fc = length preferences"
        "\<forall>x \<in> set fc. x < 5 \<and> x \<notin> set eo" "bincount fc 5 = counts"
    unfolding counts_def by blast
  have fcne: "fc \<noteq> []" using fc(2) ne by auto
  have "\<forall>x \<in> set fc. x < 5" using fc(3) by simp
  from sum_list_bincount[OF this] have total: "sum_list counts = length preferences"
    using fc(2,4) by simp
  have pos: "length preferences \<noteq> 0" using ne by simp
  have "sum_list counts \<noteq> 0" using total pos by simp
  then have nz: "Bex (set counts) ((<) 0)" by simp
  have maj': "length preferences < amax counts * 2" using maj by (simp add: counts_def)
  show "irv_round preferences (active_of eo) eo =
           Inr (Return \<lparr>winner = Some (argmax (round_counts preferences eo)),
                        aux = [(''counts'', PyList (round_counts preferences eo)),
                               (''elimination_order'', PyList eo)]\<rparr>)"
    unfolding counts_def[symmetric]
    by (simp add: irv_round_def fc(1,4) fcne Let_def total pos nz maj')
  have len: "length counts = 5" by (simp add: counts_def)
  then have "counts \<noteq> []" by auto
  from argmax_props[OF this] have am: "argmax counts < 5" "counts ! argmax counts = amax counts"
    using len by simp_all
  show "argmax (round_counts preferences eo) < 5" using am(1) by (simp add: counts_def)
  have "0 < amax counts" using maj' by simp
  moreover have "counts ! argmax counts = count_list fc (argmax counts)"
  proof -
    have "counts = map (count_list fc) [0..<5]"
      using fc(4) bincount_bounded[OF \<open>\<forall>x \<in> set fc. x < 5\<close>] by simp
    then have "counts ! argmax counts = map (count_list fc) [0..<5] ! argmax counts" by simp
    also have "\<dots> = count_list fc (argmax counts)" using am(1) by simp
    finally show ?thesis .
  qed
  ultimately have "0 < count_list fc (argmax counts)" using am(2) by simp
  then have "argmax counts \<in> set fc" by (metis count_notin less_numeral_extra(3))
  then show "argmax (round_counts preferences eo) \<notin> set eo" using fc(3) by (simp add: counts_def)
qed

lemma irv_round_eliminate:
  assumes "ballot_set preferences" "distinct eo" "set eo \<subseteq> {0..<5::nat}" "length eo \<le> 3"
    and ne: "preferences \<noteq> []"
    and nomaj: "\<not> amax (round_counts preferences eo) * 2 > length preferences"
  shows "\<exists>elim. elim < 5 \<and> elim \<notin> set eo \<and>
           irv_round preferences (active_of eo) eo =
             Inr (if length eo = 3
                  then Return \<lparr>winner = Some (flatnonzero (active_of (eo @ [elim])) ! 0),
                               aux = [(''counts'', PyList (round_counts preferences eo)),
                                      (''elimination_order'', PyList (eo @ [elim]))]\<rparr>
                  else Continue (active_of (eo @ [elim])) (eo @ [elim]))"
proof -
  define counts where "counts = round_counts preferences eo"
  have le4: "length eo \<le> 4" using assms(4) by simp
  from round_tally[OF assms(1,2,3) le4] obtain fc where
    fc: "first_choices_of (active_of eo) preferences = Inr fc" "length fc = length preferences"
        "\<forall>x \<in> set fc. x < 5 \<and> x \<notin> set eo" "bincount fc 5 = counts"
    unfolding counts_def by blast
  have fcne: "fc \<noteq> []" using fc(2) ne by auto
  have "\<forall>x \<in> set fc. x < 5" using fc(3) by simp
  from sum_list_bincount[OF this] have total: "sum_list counts = length preferences"
    using fc(2,4) by simp
  have pos: "length preferences \<noteq> 0" using ne by simp
  have "sum_list counts \<noteq> 0" using total pos by simp
  then have nz: "Bex (set counts) ((<) 0)" by simp
  have nomaj': "\<not> length preferences < amax counts * 2" using nomaj by (simp add: counts_def)
  have len: "length counts = 5" by (simp add: counts_def)
  from exists_active[OF assms(2,3) le4] obtain c where c: "c < 5" "c \<notin> set eo" by blast
  define masked where "masked = map fst (filter snd (zip counts (active_of eo)))"
  from masked_minimum[OF len c] obtain elim where
    mne: "masked \<noteq> []" and
    tb: "alphabetical_tiebreak
           (filter (\<lambda>c. active_of eo ! c \<and> counts ! c = fold min (tl masked) (hd masked)) [0..<5])
         = Inr elim" and
    elim: "elim < 5" "elim \<notin> set eo"
    unfolding masked_def by blast
  have d': "distinct (eo @ [elim])" and sub': "set (eo @ [elim]) \<subseteq> {0..<5}"
    using assms(2,3) elim by simp_all
  have cnt: "length (filter id (active_of (eo @ [elim]))) = 4 - length eo"
    using count_active_of[OF d' sub'] by simp
  have one: "(4 - length eo = Suc 0) = (length eo = 3)" using assms(4) by arith
  have "irv_round preferences (active_of eo) eo =
             Inr (if length eo = 3
                  then Return \<lparr>winner = Some (flatnonzero (active_of (eo @ [elim])) ! 0),
                               aux = [(''counts'', PyList counts),
                                      (''elimination_order'', PyList (eo @ [elim]))]\<rparr>
                  else Continue (active_of (eo @ [elim])) (eo @ [elim]))"
    using mne
    by (simp add: irv_round_def fc(1,4) fcne Let_def total pos nz nomaj' len
          masked_def[symmetric] tb active_of_update[OF elim(1)] cnt one)
  then show ?thesis using elim unfolding counts_def by blast
qed

lemma irv_loop_Return:
  assumes "irv_round preferences active eo = Inr (Return result)" "k \<noteq> 0"
  shows "irv_loop preferences active eo = Inr result"
    and "irv_bounded k preferences active eo = Some (Inr result)"
proof -
  show "irv_loop preferences active eo = Inr result"
    by (subst irv_loop.simps) (simp add: assms(1))
  from assms(2) obtain j where "k = Suc j" by (cases k) auto
  then show "irv_bounded k preferences active eo = Some (Inr result)"
    by (simp add: assms(1))
qed

lemma irv_loop_Continue:
  assumes "irv_round preferences active eo = Inr (Continue active' eo')"
  shows "irv_loop preferences active eo = irv_loop preferences active' eo'"
    and "irv_bounded (Suc k) preferences active eo = irv_bounded k preferences active' eo'"
proof -
  show "irv_loop preferences active eo = irv_loop preferences active' eo'"
    by (subst irv_loop.simps) (simp add: assms(1))
  show "irv_bounded (Suc k) preferences active eo = irv_bounded k preferences active' eo'"
    by (simp add: assms(1))
qed

lemma irv_outcome_exhausted:
  assumes "distinct eo" "set eo \<subseteq> {0..<5::nat}" "length eo \<le> 3"
  shows "irv_outcome [] eo \<lparr>winner = None, aux = [(''elimination_order'', PyList eo)]\<rparr>"
  using assms by (simp add: irv_outcome_def)

lemma irv_outcome_majority:
  assumes "distinct eo" "set eo \<subseteq> {0..<5::nat}" "length eo \<le> 3"
    "preferences \<noteq> []" "w < 5" "w \<notin> set eo"
  shows "irv_outcome preferences eo
           \<lparr>winner = Some w, aux = [(''counts'', PyList (round_counts preferences eo)),
                                     (''elimination_order'', PyList eo)]\<rparr>"
  using assms by (simp add: irv_outcome_def)

lemma irv_outcome_last_standing:
  assumes "distinct eo" "set eo \<subseteq> {0..<5::nat}" "length eo = 3"
    "preferences \<noteq> []" "elim < 5" "elim \<notin> set eo"
  shows "irv_outcome preferences (eo @ [elim])
           \<lparr>winner = Some (flatnonzero (active_of (eo @ [elim])) ! 0),
             aux = [(''counts'', PyList (round_counts preferences eo)),
                    (''elimination_order'', PyList (eo @ [elim]))]\<rparr>"
proof -
  have d': "distinct (eo @ [elim])" and sub': "set (eo @ [elim]) \<subseteq> {0..<5}"
    and len': "length (eo @ [elim]) = 4"
    using assms by simp_all
  from last_standing[OF d' sub' len'] obtain w where
    w: "flatnonzero (active_of (eo @ [elim])) = [w]" "w < 5" "w \<notin> set (eo @ [elim])"
       "insert w (set (eo @ [elim])) = {0..<5}"
    by blast
  have "\<exists>v. v < 5 \<and> v \<notin> set (eo @ [elim]) \<and> insert v (set (eo @ [elim])) = {0..<5} \<and>
          flatnonzero (active_of (eo @ [elim])) ! 0 = v"
    using w by simp
  then show ?thesis
    unfolding irv_outcome_def using d' sub' len' assms(4) by auto
qed

lemma irv_loop_ballot_set:
  assumes "ballot_set preferences" "distinct eo" "set eo \<subseteq> {0..<5::nat}" "length eo \<le> 3"
  shows "\<exists>result eo'. irv_loop preferences (active_of eo) eo = Inr result \<and>
           irv_bounded (4 - length eo) preferences (active_of eo) eo = Some (Inr result) \<and>
           irv_outcome preferences eo' result"
  using assms(2,3,4)
proof (induction "3 - length eo" arbitrary: eo)
  case 0
  then have len: "length eo = 3" by simp
  have k: "4 - length eo \<noteq> 0" using len by simp
  show ?case
  proof (cases "preferences = []")
    case True
    have r: "irv_round preferences (active_of eo) eo =
               Inr (Return \<lparr>winner = None, aux = [(''elimination_order'', PyList eo)]\<rparr>)"
      unfolding True by (rule irv_round_exhausted)
    show ?thesis
      using irv_loop_Return[OF r k] irv_outcome_exhausted[OF "0.prems"] True by blast
  next
    case False
    show ?thesis
    proof (cases "amax (round_counts preferences eo) * 2 > length preferences")
      case True
      note m = irv_round_majority[OF assms(1) "0.prems" False True]
      show ?thesis
        using irv_loop_Return[OF m(1) k] irv_outcome_majority[OF "0.prems" False m(2,3)] by blast
    next
      case nomaj: False
      from irv_round_eliminate[OF assms(1) "0.prems" False nomaj] obtain elim where
        elim: "elim < 5" "elim \<notin> set eo" and
        r: "irv_round preferences (active_of eo) eo =
              Inr (Return \<lparr>winner = Some (flatnonzero (active_of (eo @ [elim])) ! 0),
                           aux = [(''counts'', PyList (round_counts preferences eo)),
                                  (''elimination_order'', PyList (eo @ [elim]))]\<rparr>)"
        using len by auto
      show ?thesis
        using irv_loop_Return[OF r k]
          irv_outcome_last_standing[OF "0.prems"(1,2) len False elim] by blast
    qed
  qed
next
  case (Suc n)
  then have len: "length eo \<le> 2" by simp
  have k: "4 - length eo \<noteq> 0" using len by simp
  show ?case
  proof (cases "preferences = []")
    case True
    have r: "irv_round preferences (active_of eo) eo =
               Inr (Return \<lparr>winner = None, aux = [(''elimination_order'', PyList eo)]\<rparr>)"
      unfolding True by (rule irv_round_exhausted)
    show ?thesis
      using irv_loop_Return[OF r k] irv_outcome_exhausted[OF Suc.prems] True by blast
  next
    case False
    show ?thesis
    proof (cases "amax (round_counts preferences eo) * 2 > length preferences")
      case True
      note m = irv_round_majority[OF assms(1) Suc.prems False True]
      show ?thesis
        using irv_loop_Return[OF m(1) k] irv_outcome_majority[OF Suc.prems False m(2,3)] by blast
    next
      case nomaj: False
      from irv_round_eliminate[OF assms(1) Suc.prems False nomaj] obtain elim where
        elim: "elim < 5" "elim \<notin> set eo" and
        r: "irv_round preferences (active_of eo) eo =
              Inr (Continue (active_of (eo @ [elim])) (eo @ [elim]))"
        using len by auto
      have d': "distinct (eo @ [elim])" and sub': "set (eo @ [elim]) \<subseteq> {0..<5}"
        and len': "length (eo @ [elim]) \<le> 3"
        using Suc.prems elim len by simp_all
      have n: "n = 3 - length (eo @ [elim])" using Suc.hyps(2) by simp
      have four: "4 - length eo = Suc (4 - length (eo @ [elim]))" using len by simp
      from Suc.hyps(1)[OF n d' sub' len'] show ?thesis
        unfolding irv_loop_Continue(1)[OF r] four irv_loop_Continue(2)[OF r] .
    qed
  qed
qed

lemma active_of_Nil: "active_of [] = replicate 5 True"
  by (simp add: active_of_def map_replicate_const)

lemma IRV_compute_ballot_set:
  assumes "ballot_set preferences"
  shows "\<exists>result eo. IRV_compute preferences = Inr result \<and>
           irv_bounded 4 preferences (replicate 5 True) [] = Some (Inr result) \<and>
           irv_outcome preferences eo result"
  using irv_loop_ballot_set[OF assms, of "[]"]
  by (simp add: IRV_compute_def active_of_Nil)

lemma irv_outcome_elimination_order:
  assumes "irv_outcome preferences eo result"
  shows "map_of (aux result) ''elimination_order'' = Some (PyList eo)"
  using assms by (cases "preferences = []") (auto simp: irv_outcome_def)

lemma irv_outcome_winner:
  assumes "irv_outcome preferences eo result"
  shows "winner result = None \<longleftrightarrow> preferences = []"
  using assms by (cases "preferences = []") (auto simp: irv_outcome_def)

lemma irv_round_Return:
  assumes "irv_round preferences active eo = Inr (Return r)"
  shows "\<exists>fc. first_choices_of active preferences = Inr fc \<and>
           ((fc = [] \<or> sum_list (bincount fc 5) = 0) \<and> winner r = None \<or>
            fc \<noteq> [] \<and> amax (bincount fc 5) * 2 > sum_list (bincount fc 5) \<and>
              winner r = Some (argmax (bincount fc 5)) \<or>
            (\<exists>elim. length (filter id (active[elim := False])) = 1 \<and>
               winner r = Some (flatnonzero (active[elim := False]) ! 0)))"
proof -
  from assms obtain fc where fc: "first_choices_of active preferences = Inr fc"
    by (cases "first_choices_of active preferences") (auto simp: irv_round_def)
  show ?thesis
  proof (cases "fc = [] \<or> sum_list (bincount fc 5) = 0")
    case True
    then have "winner r = None"
      using assms fc
      by (auto simp: irv_round_def Let_def simp del: sum_list_eq_0_iff split: if_splits)
    then show ?thesis using fc True by blast
  next
    case False
    show ?thesis
    proof (cases "amax (bincount fc 5) * 2 > sum_list (bincount fc 5)")
      case True
      then have "winner r = Some (argmax (bincount fc 5))"
        using assms fc False
        by (auto simp: irv_round_def Let_def simp del: sum_list_eq_0_iff split: if_splits)
      then show ?thesis using fc False True by blast
    next
      case nomaj: False
      from assms fc False nomaj obtain elim where
        "length (filter id (active[elim := False])) = 1"
        "winner r = Some (flatnonzero (active[elim := False]) ! 0)"
        by (auto simp: irv_round_def Let_def simp del: sum_list_eq_0_iff
              split: if_splits sum.splits)
      then show ?thesis using fc by blast
    qed
  qed
qed

text \<open>
  Claim C3. On a ballot set \<open>IRVRule.compute\<close> terminates: it returns a result within four
  passes through the loop body (\<open>K - 1 = 4\<close> elimination rounds); every pass that does not
  return deactivates exactly one candidate that was active and appends it to the
  elimination order, so the number of active candidates drops by one; and every pass that
  returns does so by exhaustion (no first choice, no winner), by a strict majority
  (\<open>count * 2 > total\<close>, the winner being the candidate with the largest count) or because
  exactly one candidate is left active after the elimination.
\<close>

theorem IRV_terminates_within_four_rounds:
  assumes "ballot_set preferences"
  shows "(\<exists>result. IRV_compute preferences = Inr result \<and>
            irv_bounded 4 preferences (replicate 5 True) [] = Some (Inr result)) \<and>
         (\<forall>active eo active' eo'.
            irv_round preferences active eo = Inr (Continue active' eo') \<longrightarrow>
            (\<exists>elim < length active. active ! elim \<and> active' = active[elim := False] \<and>
               eo' = eo @ [elim] \<and>
               Suc (length (filter id active')) = length (filter id active))) \<and>
         (\<forall>active eo r.
            irv_round preferences active eo = Inr (Return r) \<longrightarrow>
            (\<exists>fc. first_choices_of active preferences = Inr fc \<and>
               ((fc = [] \<or> sum_list (bincount fc 5) = 0) \<and> winner r = None \<or>
                fc \<noteq> [] \<and> amax (bincount fc 5) * 2 > sum_list (bincount fc 5) \<and>
                  winner r = Some (argmax (bincount fc 5)) \<or>
                (\<exists>elim. length (filter id (active[elim := False])) = 1 \<and>
                   winner r = Some (flatnonzero (active[elim := False]) ! 0)))))"
proof (intro conjI allI impI)
  show "\<exists>result. IRV_compute preferences = Inr result \<and>
            irv_bounded 4 preferences (replicate 5 True) [] = Some (Inr result)"
    using IRV_compute_ballot_set[OF assms] by blast
next
  fix active eo active' eo'
  assume "irv_round preferences active eo = Inr (Continue active' eo')"
  from irv_round_Continue[OF this] obtain elim where
    e: "elim < length active" "active ! elim" "active' = active[elim := False]" "eo' = eo @ [elim]"
    by blast
  from filter_id_update_False[OF e(1,2)] e
  show "\<exists>elim < length active. active ! elim \<and> active' = active[elim := False] \<and>
             eo' = eo @ [elim] \<and>
             Suc (length (filter id active')) = length (filter id active)"
    by blast
next
  fix active eo r
  assume "irv_round preferences active eo = Inr (Return r)"
  then show "\<exists>fc. first_choices_of active preferences = Inr fc \<and>
               ((fc = [] \<or> sum_list (bincount fc 5) = 0) \<and> winner r = None \<or>
                fc \<noteq> [] \<and> amax (bincount fc 5) * 2 > sum_list (bincount fc 5) \<and>
                  winner r = Some (argmax (bincount fc 5)) \<or>
                (\<exists>elim. length (filter id (active[elim := False])) = 1 \<and>
                   winner r = Some (flatnonzero (active[elim := False]) ! 0)))"
    by (rule irv_round_Return)
qed

theorem IRV_terminates_within_four_rounds_witness:
  "ballot_set [[0, 1, 2, 3, 4], [1, 0, 2, 3, 4]] \<and>
   (\<exists>result. IRV_compute [[0, 1, 2, 3, 4], [1, 0, 2, 3, 4]] = Inr result \<and>
      irv_bounded 4 [[0, 1, 2, 3, 4], [1, 0, 2, 3, 4]] (replicate 5 True) [] = Some (Inr result)) \<and>
   irv_round [[0, 1, 2, 3, 4], [1, 0, 2, 3, 4]] [True, True, True, True, True] []
     = Inr (Continue [True, True, False, True, True] [2]) \<and>
   (\<exists>elim < length [True, True, True, True, True].
      [True, True, True, True, True] ! elim \<and>
      [True, True, False, True, True] = [True, True, True, True, True][elim := False] \<and>
      [2] = [] @ [elim] \<and>
      Suc (length (filter id [True, True, False, True, True]))
        = length (filter id [True, True, True, True, True])) \<and>
   irv_round [[0, 1, 2, 3, 4], [1, 0, 2, 3, 4]] [True, True, False, False, False] [2, 3, 4]
     = Inr (Return \<lparr>winner = Some 1,
                    aux = [(''counts'', PyList [1, 1, 0, 0, 0]),
                           (''elimination_order'', PyList [2, 3, 4, 0])]\<rparr>) \<and>
   (\<exists>fc. first_choices_of [True, True, False, False, False] [[0, 1, 2, 3, 4], [1, 0, 2, 3, 4]]
            = Inr fc \<and>
      ((fc = [] \<or> sum_list (bincount fc 5) = 0) \<and>
         winner \<lparr>winner = Some 1,
                  aux = [(''counts'', PyList [1, 1, 0, 0, 0]),
                         (''elimination_order'', PyList [2, 3, 4, 0])]\<rparr> = None \<or>
       fc \<noteq> [] \<and> amax (bincount fc 5) * 2 > sum_list (bincount fc 5) \<and>
         winner \<lparr>winner = Some 1,
                  aux = [(''counts'', PyList [1, 1, 0, 0, 0]),
                         (''elimination_order'', PyList [2, 3, 4, 0])]\<rparr>
           = Some (argmax (bincount fc 5)) \<or>
       (\<exists>elim. length (filter id ([True, True, False, False, False][elim := False])) = 1 \<and>
          winner \<lparr>winner = Some 1,
                   aux = [(''counts'', PyList [1, 1, 0, 0, 0]),
                          (''elimination_order'', PyList [2, 3, 4, 0])]\<rparr>
            = Some (flatnonzero ([True, True, False, False, False][elim := False]) ! 0))))"
proof -
  have h: "ballot_set [[0, 1, 2, 3, 4], [1, 0, 2, 3, 4]]"
    by (auto simp: ballot_set_def is_ballot_def)
  have c: "irv_round [[0, 1, 2, 3, 4], [1, 0, 2, 3, 4]] [True, True, True, True, True] []
     = Inr (Continue [True, True, False, True, True] [2])"
    by code_simp
  have r: "irv_round [[0, 1, 2, 3, 4], [1, 0, 2, 3, 4]] [True, True, False, False, False] [2, 3, 4]
     = Inr (Return \<lparr>winner = Some 1,
                    aux = [(''counts'', PyList [1, 1, 0, 0, 0]),
                           (''elimination_order'', PyList [2, 3, 4, 0])]\<rparr>)"
    by code_simp
  note t = IRV_terminates_within_four_rounds[OF h]
  note t1 = t[THEN conjunct1]
  note t2 = t[THEN conjunct2, THEN conjunct1, rule_format, OF c]
  note t3 = t[THEN conjunct2, THEN conjunct2, rule_format, OF r]
  show ?thesis
    by (rule conjI[OF h conjI[OF t1 conjI[OF c conjI[OF t2 conjI[OF r t3]]]]])
qed

text \<open>
  Claim C9. On a ballot set \<open>IRVRule.compute\<close> returns a result whose winner is absent
  exactly when the ballot set is empty; on a non-empty ballot set the winner is a
  candidate of \<open>[0,5)\<close>. The reason: as long as at most four candidates are eliminated,
  the scan finds a first active choice on every ballot, so the list of first choices has
  one entry per ballot.
\<close>

theorem IRV_winner_defined_iff_nonempty:
  assumes "ballot_set preferences"
  shows "\<exists>result. IRV_compute preferences = Inr result \<and>
           (winner result = None \<longleftrightarrow> preferences = []) \<and>
           (preferences \<noteq> [] \<longrightarrow> (\<exists>w < 5. winner result = Some w)) \<and>
           (\<forall>eo. distinct eo \<and> set eo \<subseteq> {0..<5} \<and> length eo \<le> 4 \<longrightarrow>
              (\<exists>fc. first_choices_of (active_of eo) preferences = Inr fc \<and>
                 length fc = length preferences))"
proof -
  from IRV_compute_ballot_set[OF assms] obtain result eo where
    r: "IRV_compute preferences = Inr result" and o: "irv_outcome preferences eo result"
    by blast
  have w: "preferences \<noteq> [] \<longrightarrow> (\<exists>w < 5. winner result = Some w)"
    using o by (auto simp: irv_outcome_def)
  have fc: "\<forall>eo. distinct eo \<and> set eo \<subseteq> {0..<5} \<and> length eo \<le> 4 \<longrightarrow>
              (\<exists>fc. first_choices_of (active_of eo) preferences = Inr fc \<and>
                 length fc = length preferences)"
  proof (intro allI impI)
    fix eo :: "nat list"
    assume "distinct eo \<and> set eo \<subseteq> {0..<5} \<and> length eo \<le> 4"
    then have "distinct eo" "set eo \<subseteq> {0..<5}" "length eo \<le> 4" by simp_all
    from round_tally[OF assms this]
    show "\<exists>fc. first_choices_of (active_of eo) preferences = Inr fc \<and>
                 length fc = length preferences"
      by blast
  qed
  show ?thesis
  proof (intro exI conjI)
    show "IRV_compute preferences = Inr result" by (rule r)
    show "winner result = None \<longleftrightarrow> preferences = []" by (rule irv_outcome_winner[OF o])
    show "preferences \<noteq> [] \<longrightarrow> (\<exists>w < 5. winner result = Some w)" by (rule w)
    show "\<forall>eo. distinct eo \<and> set eo \<subseteq> {0..<5} \<and> length eo \<le> 4 \<longrightarrow>
              (\<exists>fc. first_choices_of (active_of eo) preferences = Inr fc \<and>
                 length fc = length preferences)"
      by (rule fc)
  qed
qed

theorem IRV_winner_defined_iff_nonempty_witness:
  "ballot_set [[0, 1, 2, 3, 4], [1, 0, 2, 3, 4]] \<and>
   (\<exists>result. IRV_compute [[0, 1, 2, 3, 4], [1, 0, 2, 3, 4]] = Inr result \<and>
      (winner result = None \<longleftrightarrow> [[0, 1, 2, 3, 4], [1, 0, 2, 3, 4]] = ([] :: nat list list)) \<and>
      ([[0, 1, 2, 3, 4], [1, 0, 2, 3, 4]] \<noteq> ([] :: nat list list) \<longrightarrow>
         (\<exists>w < 5. winner result = Some w)) \<and>
      (\<forall>eo. distinct eo \<and> set eo \<subseteq> {0..<5} \<and> length eo \<le> 4 \<longrightarrow>
         (\<exists>fc. first_choices_of (active_of eo) [[0, 1, 2, 3, 4], [1, 0, 2, 3, 4]] = Inr fc \<and>
            length fc = length [[0, 1, 2, 3, 4], [1, 0, 2, 3, 4 :: nat]])))"
proof -
  have h: "ballot_set [[0, 1, 2, 3, 4], [1, 0, 2, 3, 4]]"
    by (auto simp: ballot_set_def is_ballot_def)
  show ?thesis using h IRV_winner_defined_iff_nonempty[OF h] by (intro conjI)
qed

text \<open>
  Claim C4, as the code has it. On a ballot set the elimination order returned by
  \<open>IRVRule.compute\<close> has no repeated candidate, holds candidates of \<open>[0,5)\<close> only and has
  length at most 4; a returned winner is a candidate that is not in the elimination
  order, and the winner together with the eliminated candidates makes up all of
  \<open>{0,1,2,3,4}\<close> exactly when four candidates were eliminated. A winner returned by a
  strict majority leaves the candidates that were neither eliminated nor elected outside
  that union: the single ballot \<open>[0,1,2,3,4]\<close> elects 0 with an empty elimination order.
\<close>

theorem IRV_elimination_order:
  assumes "ballot_set preferences"
  shows "\<exists>result eo. IRV_compute preferences = Inr result \<and>
           map_of (aux result) ''elimination_order'' = Some (PyList eo) \<and>
           distinct eo \<and> length eo \<le> 4 \<and> set eo \<subseteq> {0..<5} \<and>
           (\<forall>w. winner result = Some w \<longrightarrow>
              w < 5 \<and> w \<notin> set eo \<and> (insert w (set eo) = {0..<5} \<longleftrightarrow> length eo = 4))"
proof -
  from IRV_compute_ballot_set[OF assms] obtain result eo where
    r: "IRV_compute preferences = Inr result" and o: "irv_outcome preferences eo result"
    by blast
  have d: "distinct eo" "length eo \<le> 4" "set eo \<subseteq> {0..<5}"
    using o by (simp_all add: irv_outcome_def)
  have w: "w < 5 \<and> w \<notin> set eo \<and> (insert w (set eo) = {0..<5} \<longleftrightarrow> length eo = 4)"
    if "winner result = Some w" for w
  proof -
    have ne: "preferences \<noteq> []" using irv_outcome_winner[OF o] that by auto
    then have 1: "w < 5" "w \<notin> set eo" "length eo = 4 \<longrightarrow> insert w (set eo) = {0..<5}"
      using o that by (auto simp: irv_outcome_def)
    have "length eo = 4" if eq: "insert w (set eo) = {0..<5}"
    proof -
      have "card (insert w (set eo)) = Suc (length eo)"
        using 1(2) d(1) by (simp add: distinct_card)
      then show ?thesis unfolding eq by simp
    qed
    then show ?thesis using 1 by blast
  qed
  show ?thesis
  proof (intro exI conjI)
    show "IRV_compute preferences = Inr result" by (rule r)
    show "map_of (aux result) ''elimination_order'' = Some (PyList eo)"
      by (rule irv_outcome_elimination_order[OF o])
    show "distinct eo" "length eo \<le> 4" "set eo \<subseteq> {0..<5}" by (rule d)+
    show "\<forall>w. winner result = Some w \<longrightarrow>
              w < 5 \<and> w \<notin> set eo \<and> (insert w (set eo) = {0..<5} \<longleftrightarrow> length eo = 4)"
      using w by blast
  qed
qed

theorem IRV_elimination_order_witness:
  "ballot_set [[0, 1, 2, 3, 4], [1, 0, 2, 3, 4]] \<and>
   (\<exists>result eo. IRV_compute [[0, 1, 2, 3, 4], [1, 0, 2, 3, 4]] = Inr result \<and>
           map_of (aux result) ''elimination_order'' = Some (PyList eo) \<and>
           distinct eo \<and> length eo \<le> 4 \<and> set eo \<subseteq> {0..<5} \<and>
           (\<forall>w. winner result = Some w \<longrightarrow>
              w < 5 \<and> w \<notin> set eo \<and> (insert w (set eo) = {0..<5} \<longleftrightarrow> length eo = 4)))"
proof -
  have h: "ballot_set [[0, 1, 2, 3, 4], [1, 0, 2, 3, 4]]"
    by (auto simp: ballot_set_def is_ballot_def)
  show ?thesis using h IRV_elimination_order[OF h] by (intro conjI)
qed

text \<open>
  The claim as the specification words it (the union is the full candidate set whenever
  a winner exists) fails on the single ballot \<open>[0,1,2,3,4]\<close>.
\<close>

theorem IRV_elimination_order_counterexample:
  "ballot_set [[0, 1, 2, 3, 4]] \<and>
   IRV_compute [[0, 1, 2, 3, 4]] =
     Inr \<lparr>winner = Some 0,
          aux = [(''counts'', PyList [1, 0, 0, 0, 0]), (''elimination_order'', PyList [])]\<rparr> \<and>
   {0} \<union> set [] \<noteq> {0, 1, 2, 3, 4 :: nat}"
proof -
  have h: "ballot_set [[0, 1, 2, 3, 4]]"
    by (auto simp: ballot_set_def is_ballot_def)
  have r: "IRV_compute [[0, 1, 2, 3, 4]] =
     Inr \<lparr>winner = Some 0,
          aux = [(''counts'', PyList [1, 0, 0, 0, 0]), (''elimination_order'', PyList [])]\<rparr>"
    by code_simp
  have n: "{0} \<union> set [] \<noteq> {0, 1, 2, 3, 4 :: nat}" by auto
  show ?thesis using h r n by (intro conjI)
qed

text \<open>
  Claim C6, as the code has it. On a ballot set the result of \<open>IRVRule.compute\<close> always
  carries the complete elimination order; when a winner is returned it also carries the
  count vector of the final round under the key \<open>counts\<close>; when the count ends by
  exhaustion (no winner) there is no count vector in the auxiliary output, as the empty
  ballot set shows.
\<close>

theorem IRV_aux_output:
  assumes "ballot_set preferences"
  shows "\<exists>result eo. IRV_compute preferences = Inr result \<and>
           map_of (aux result) ''elimination_order'' = Some (PyList eo) \<and>
           (winner result \<noteq> None \<longrightarrow>
              map_of (aux result) ''counts'' =
                Some (PyList (round_counts preferences (if length eo = 4 then butlast eo else eo)))) \<and>
           (winner result = None \<longrightarrow> map_of (aux result) ''counts'' = None)"
proof -
  from IRV_compute_ballot_set[OF assms] obtain result eo where
    r: "IRV_compute preferences = Inr result" and o: "irv_outcome preferences eo result"
    by blast
  have 1: "winner result \<noteq> None \<longrightarrow>
              map_of (aux result) ''counts'' =
                Some (PyList (round_counts preferences (if length eo = 4 then butlast eo else eo)))"
    using o irv_outcome_winner[OF o] unfolding irv_outcome_def by auto
  have 2: "winner result = None \<longrightarrow> map_of (aux result) ''counts'' = None"
    using o irv_outcome_winner[OF o] unfolding irv_outcome_def by auto
  show ?thesis
  proof (intro exI conjI)
    show "IRV_compute preferences = Inr result" by (rule r)
    show "map_of (aux result) ''elimination_order'' = Some (PyList eo)"
      by (rule irv_outcome_elimination_order[OF o])
    show "winner result \<noteq> None \<longrightarrow>
              map_of (aux result) ''counts'' =
                Some (PyList (round_counts preferences (if length eo = 4 then butlast eo else eo)))"
      by (rule 1)
    show "winner result = None \<longrightarrow> map_of (aux result) ''counts'' = None" by (rule 2)
  qed
qed

theorem IRV_aux_output_witness:
  "ballot_set [[0, 1, 2, 3, 4], [1, 0, 2, 3, 4]] \<and>
   (\<exists>result eo. IRV_compute [[0, 1, 2, 3, 4], [1, 0, 2, 3, 4]] = Inr result \<and>
           map_of (aux result) ''elimination_order'' = Some (PyList eo) \<and>
           (winner result \<noteq> None \<longrightarrow>
              map_of (aux result) ''counts'' =
                Some (PyList (round_counts [[0, 1, 2, 3, 4], [1, 0, 2, 3, 4]]
                        (if length eo = 4 then butlast eo else eo)))) \<and>
           (winner result = None \<longrightarrow> map_of (aux result) ''counts'' = None))"
proof -
  have h: "ballot_set [[0, 1, 2, 3, 4], [1, 0, 2, 3, 4]]"
    by (auto simp: ballot_set_def is_ballot_def)
  show ?thesis using h IRV_aux_output[OF h] by (intro conjI)
qed

text \<open>
  The claim as the specification words it (a count vector also on exhaustion) fails on
  the empty ballot set.
\<close>

theorem IRV_aux_output_counterexample:
  "ballot_set [] \<and>
   IRV_compute [] = Inr \<lparr>winner = None, aux = [(''elimination_order'', PyList [])]\<rparr> \<and>
   map_of [(''elimination_order'', PyList [])] ''counts'' = None"
proof -
  have h: "ballot_set []" by (simp add: ballot_set_def)
  have r: "IRV_compute [] = Inr \<lparr>winner = None, aux = [(''elimination_order'', PyList [])]\<rparr>"
    by code_simp
  have n: "map_of [(''elimination_order'', PyList [])] ''counts'' = None" by simp
  show ?thesis using h r n by (intro conjI)
qed

section \<open>The rules never raise on a ballot set\<close>




section \<open>The progressive simulator\<close>

lemma remove_nth_distinct:
  assumes "distinct xs" "i < length xs"
  shows "distinct (take i xs @ drop (Suc i) xs)"
    and "set (take i xs @ drop (Suc i) xs) = set xs - {xs ! i}"
proof -
  have xs: "xs = take i xs @ xs ! i # drop (Suc i) xs" using assms(2) by (rule id_take_nth_drop)
  have d: "distinct (take i xs @ xs ! i # drop (Suc i) xs)" using assms(1) xs by simp
  then show "distinct (take i xs @ drop (Suc i) xs)" by simp
  have "set xs = set (take i xs @ xs ! i # drop (Suc i) xs)" using xs by simp
  then have "set xs - {xs ! i} = set (take i xs @ xs ! i # drop (Suc i) xs) - {xs ! i}" by simp
  also have "\<dots> = set (take i xs @ drop (Suc i) xs)" using d by auto
  finally show "set (take i xs @ drop (Suc i) xs) = set xs - {xs ! i}" by simp
qed

lemma permutations_distinct:
  "distinct xs \<Longrightarrow> p \<in> set (permutations xs) \<Longrightarrow> distinct p \<and> set p = set xs"
proof (induction xs arbitrary: p rule: permutations.induct)
  case 1
  then show ?case by simp
next
  case (2 y ys)
  let ?xs = "y # ys"
  let ?F = "\<lambda>i. map ((#) (?xs ! i)) (permutations (take i ?xs @ drop (Suc i) ?xs))"
  have "p \<in> set (concat (map ?F [0..<length ?xs]))"
    using "2.prems"(2) by (simp only: permutations.simps)
  then have "\<exists>l \<in> set (map ?F [0..<length ?xs]). p \<in> set l"
    by (simp only: set_concat UN_iff)
  then have "\<exists>i \<in> set [0..<length ?xs]. p \<in> set (?F i)"
    by (simp only: set_map bex_simps image_iff)
  then obtain i where mem: "i \<in> set [0..<length ?xs]" and pi: "p \<in> set (?F i)"
    by blast
  from pi have "p \<in> (#) (?xs ! i) ` set (permutations (take i ?xs @ drop (Suc i) ?xs))"
    by (simp only: set_map)
  then obtain q where
    q: "q \<in> set (permutations (take i ?xs @ drop (Suc i) ?xs))" and
    p: "p = ?xs ! i # q"
    by blast
  have i: "i < length ?xs" using mem by auto
  note r = remove_nth_distinct[OF "2.prems"(1) i]
  from "2.IH"[OF mem r(1) q] have "distinct q" "set q = set ?xs - {?xs ! i}"
    using r(2) by simp_all
  moreover have "?xs ! i \<in> set ?xs" using i by (rule nth_mem)
  ultimately show ?case unfolding p by auto
qed

lemma length_perms: "length perms = 120"
  unfolding perms_def by code_simp

lemma perms_ballot: "idx < 120 \<Longrightarrow> is_ballot (perms ! idx)"
proof -
  assume "idx < 120"
  then have "perms ! idx \<in> set (permutations [0..<5])"
    using length_perms by (simp add: perms_def)
  from permutations_distinct[OF _ this] show ?thesis by (simp add: is_ballot_def)
qed

lemma sample_ballot: "idx < 120 \<Longrightarrow> sample idx = Inr [perms ! idx]"
  by (simp add: sample_def length_perms)

lemma sample_Inr: "sample idx = Inr new_pref \<Longrightarrow> new_pref = [perms ! idx]"
  by (auto simp: sample_def split: if_splits)

lemma label_of_ok:
  "w = None \<or> (\<exists>c < 5. w = Some c) \<Longrightarrow> label_of w = Inr (map_option ((!) labels) w)"
  by (auto simp: label_of_def labels_def)

lemma label_of_Inr: "label_of w = Inr l \<Longrightarrow> l = map_option ((!) labels) w"
  by (auto simp: label_of_def split: option.splits if_splits)

lemma compute_winners_Inr:
  assumes "compute_winners uninit prefs = Inr ws"
  shows "\<exists>pl bd cd ir.
           Plurality_compute prefs = Inr pl \<and> Borda_compute prefs = Inr bd \<and>
           Condorcet_compute uninit prefs = Inr cd \<and> IRV_compute prefs = Inr ir \<and>
           ws = [(''plurality'', map_option ((!) labels) (winner pl)),
                 (''borda'', map_option ((!) labels) (winner bd)),
                 (''condorcet'', map_option ((!) labels) (winner cd)),
                 (''irv'', map_option ((!) labels) (winner ir))]"
  using assms unfolding compute_winners_def
  by (auto split: sum.splits dest!: label_of_Inr)

lemma compute_winners_ballot_set:
  assumes "ballot_set prefs"
  shows "\<exists>ws. compute_winners uninit prefs = Inr ws"
proof -
  from Plurality_compute_ballot_set[OF assms] obtain pl wp where
    pl: "Plurality_compute prefs = Inr pl" "winner pl = Some wp" "wp < 5" by fastforce
  from Borda_compute_ballot_set[OF assms] obtain bd wb where
    bd: "Borda_compute prefs = Inr bd" "winner bd = Some wb" "wb < 5" by fastforce
  from Condorcet_winner_ballot_set[OF assms, of uninit] obtain cd where
    cd: "Condorcet_compute uninit prefs = Inr cd"
        "\<forall>a. winner cd = Some a \<longleftrightarrow> a < 5 \<and> condorcet_winner prefs a" by blast
  from IRV_compute_ballot_set[OF assms] obtain ir eo where
    ir: "IRV_compute prefs = Inr ir" "irv_outcome prefs eo ir" by blast
  have 1: "label_of (winner pl) = Inr (map_option ((!) labels) (winner pl))"
    using pl by (intro label_of_ok) simp
  have 2: "label_of (winner bd) = Inr (map_option ((!) labels) (winner bd))"
    using bd by (intro label_of_ok) simp
  have "winner cd = None \<or> (\<exists>c < 5. winner cd = Some c)"
  proof (cases "winner cd")
    case None
    then show ?thesis by simp
  next
    case (Some a)
    then have "a < 5" using cd(2) by simp
    then show ?thesis using Some by simp
  qed
  then have 3: "label_of (winner cd) = Inr (map_option ((!) labels) (winner cd))"
    by (rule label_of_ok)
  have "winner ir = None \<or> (\<exists>c < 5. winner ir = Some c)"
    using ir(2) by (cases "prefs = []") (auto simp: irv_outcome_def)
  then have 4: "label_of (winner ir) = Inr (map_option ((!) labels) (winner ir))"
    by (rule label_of_ok)
  show ?thesis by (simp add: compute_winners_def pl(1) bd(1) cd(1) ir(1) 1 2 3 4)
qed

lemma run_steps_records:
  assumes "run_steps draws clock uninit rid steps prefs = (records, err)" "i < length records"
  shows "i < length steps \<and>
         run_id (records ! i) = rid \<and> step (records ! i) = steps ! i \<and>
         timestamp (records ! i) = clock (steps ! i) \<and>
         voter_preferences (records ! i)
           = prefs @ map (\<lambda>j. perms ! draws j) (take (Suc i) steps) \<and>
         compute_winners (uninit (steps ! i)) (voter_preferences (records ! i))
           = Inr (winners (records ! i))"
  using assms
proof (induction steps arbitrary: prefs records err i)
  case Nil
  then show ?case by simp
next
  case (Cons k steps)
  from Cons.prems obtain new_pref where sm: "sample (draws k) = Inr new_pref"
    by (cases "sample (draws k)") auto
  then have np: "new_pref = [perms ! draws k]" by (rule sample_Inr)
  let ?prefs' = "prefs @ [perms ! draws k]"
  from Cons.prems sm np obtain ws where cw: "compute_winners (uninit k) ?prefs' = Inr ws"
    by (cases "compute_winners (uninit k) ?prefs'") auto
  obtain recs' err' where rec: "run_steps draws clock uninit rid steps ?prefs' = (recs', err')"
    by (cases "run_steps draws clock uninit rid steps ?prefs'") auto
  have records: "records = \<lparr>run_id = rid, step = k, timestamp = clock k,
                             voter_preferences = ?prefs', winners = ws\<rparr> # recs'"
    using Cons.prems(1) by (simp add: sm np cw rec Let_def)
  show ?case
  proof (cases i)
    case 0
    then show ?thesis by (simp add: records cw)
  next
    case (Suc i')
    then have "i' < length recs'" using Cons.prems(2) records by simp
    from Cons.IH[OF rec this] show ?thesis by (auto simp: records Suc)
  qed
qed

lemma run_steps_length:
  "run_steps draws clock uninit rid steps prefs = (records, err) \<Longrightarrow> length records \<le> length steps"
proof (induction steps arbitrary: prefs records err)
  case Nil
  then show ?case by simp
next
  case (Cons k steps)
  show ?case
  proof (cases "sample (draws k)")
    case (Inl e)
    then show ?thesis using Cons.prems by simp
  next
    case (Inr new_pref)
    show ?thesis
    proof (cases "compute_winners (uninit k) (prefs @ new_pref)")
      case (Inl e)
      then show ?thesis using Cons.prems Inr by simp
    next
      case cw: (Inr ws)
      obtain recs' err' where
        rec: "run_steps draws clock uninit rid steps (prefs @ new_pref) = (recs', err')"
        by (cases "run_steps draws clock uninit rid steps (prefs @ new_pref)") auto
      from Cons.IH[OF rec] show ?thesis using Cons.prems Inr cw rec by (auto simp: Let_def)
    qed
  qed
qed

lemma run_steps_complete:
  assumes "\<forall>k \<in> set steps. draws k < 120" "ballot_set prefs"
  shows "\<exists>records. run_steps draws clock uninit rid steps prefs = (records, None) \<and>
           length records = length steps"
  using assms
proof (induction steps arbitrary: prefs)
  case Nil
  show ?case by simp
next
  case (Cons k steps)
  have k: "draws k < 120" using Cons.prems(1) by simp
  let ?prefs' = "prefs @ [perms ! draws k]"
  have bs: "ballot_set ?prefs'"
    using Cons.prems(2) perms_ballot[OF k] by (simp add: ballot_set_def)
  from compute_winners_ballot_set[OF bs] obtain ws where
    cw: "compute_winners (uninit k) ?prefs' = Inr ws" by blast
  from Cons.IH[OF _ bs] Cons.prems(1) obtain recs' where
    rec: "run_steps draws clock uninit rid steps ?prefs' = (recs', None)"
      "length recs' = length steps"
    by auto
  show ?case by (simp add: sample_ballot[OF k] cw rec Let_def)
qed

text \<open>
  Claim C8. In every run, the record emitted at step \<open>k \<ge> 1\<close> has step index \<open>k\<close>, its
  snapshot holds exactly the \<open>k\<close> ballots drawn so far (one more than the step before),
  and its winners map holds, for each of the four rules, the winner of that rule on the
  whole snapshot, rendered as the label of the candidate, or nothing when the winner is
  absent. When every draw is an index into the table of permutations, the run emits
  \<open>max_voters\<close> records and ends without an exception.
\<close>

theorem progressive_step_records:
  assumes "run_single draws clock uninit rid max_voters = (records, err)"
  shows "(\<forall>k. 1 \<le> k \<and> k \<le> length records \<longrightarrow>
            step (records ! (k - 1)) = k \<and>
            length (voter_preferences (records ! (k - 1))) = k \<and>
            voter_preferences (records ! (k - 1)) = map (\<lambda>j. perms ! draws j) [1..<Suc k] \<and>
            (\<exists>pl bd cd ir.
               Plurality_compute (voter_preferences (records ! (k - 1))) = Inr pl \<and>
               Borda_compute (voter_preferences (records ! (k - 1))) = Inr bd \<and>
               Condorcet_compute (uninit k) (voter_preferences (records ! (k - 1))) = Inr cd \<and>
               IRV_compute (voter_preferences (records ! (k - 1))) = Inr ir \<and>
               winners (records ! (k - 1)) =
                 [(''plurality'', map_option ((!) labels) (winner pl)),
                  (''borda'', map_option ((!) labels) (winner bd)),
                  (''condorcet'', map_option ((!) labels) (winner cd)),
                  (''irv'', map_option ((!) labels) (winner ir))])) \<and>
         length records \<le> max_voters \<and>
         ((\<forall>k. draws k < 120) \<longrightarrow> err = None \<and> length records = max_voters)"
proof (intro conjI allI impI)
  fix k assume "1 \<le> k \<and> k \<le> length records"
  then have k: "1 \<le> k" "k \<le> length records" by simp_all
  let ?r = "records ! (k - 1)"
  have run: "run_steps draws clock uninit rid [1..<max_voters + 1] [] = (records, err)"
    using assms by (simp add: run_single_def)
  have i: "k - 1 < length records" using k by arith
  note f = run_steps_records[OF run i]
  from f have f0: "k - 1 < length [1..<max_voters + 1]" by (rule conjunct1)
  from f have f1: "step ?r = [1..<max_voters + 1] ! (k - 1)" by blast
  from f have f2: "voter_preferences ?r
      = [] @ map (\<lambda>j. perms ! draws j) (take (Suc (k - 1)) [1..<max_voters + 1])" by blast
  from f have f3: "compute_winners (uninit ([1..<max_voters + 1] ! (k - 1))) (voter_preferences ?r)
      = Inr (winners ?r)" by blast
  have lt: "k - 1 < max_voters" using f0 by (simp del: upt_Suc)
  have nth: "[1..<max_voters + 1] ! (k - 1) = k" using lt k by (simp del: upt_Suc)
  have tk: "take (Suc (k - 1)) [1..<max_voters + 1] = [1..<Suc k]"
    using lt k by (simp del: upt_Suc add: take_upt)
  show "step ?r = k" by (simp only: f1 nth)
  show vp: "voter_preferences ?r = map (\<lambda>j. perms ! draws j) [1..<Suc k]"
    by (simp only: f2 tk append_Nil)
  show "length (voter_preferences ?r) = k" unfolding vp using k by simp
  have "compute_winners (uninit k) (voter_preferences ?r) = Inr (winners ?r)"
    using f3 by (simp only: nth)
  from compute_winners_Inr[OF this]
  show "\<exists>pl bd cd ir.
               Plurality_compute (voter_preferences ?r) = Inr pl \<and>
               Borda_compute (voter_preferences ?r) = Inr bd \<and>
               Condorcet_compute (uninit k) (voter_preferences ?r) = Inr cd \<and>
               IRV_compute (voter_preferences ?r) = Inr ir \<and>
               winners ?r =
                 [(''plurality'', map_option ((!) labels) (winner pl)),
                  (''borda'', map_option ((!) labels) (winner bd)),
                  (''condorcet'', map_option ((!) labels) (winner cd)),
                  (''irv'', map_option ((!) labels) (winner ir))]" .
next
  have run: "run_steps draws clock uninit rid [1..<max_voters + 1] [] = (records, err)"
    using assms by (simp add: run_single_def)
  from run_steps_length[OF run] show "length records \<le> max_voters" by (simp del: upt_Suc)
next
  assume d: "\<forall>k. draws k < 120"
  have run: "run_steps draws clock uninit rid [1..<max_voters + 1] [] = (records, err)"
    using assms by (simp add: run_single_def)
  have "ballot_set []" by (simp add: ballot_set_def)
  from run_steps_complete[OF _ this, of "[1..<max_voters + 1]" draws clock uninit rid] d
  obtain recs where "run_steps draws clock uninit rid [1..<max_voters + 1] [] = (recs, None)"
    "length recs = length [1..<max_voters + 1]" by auto
  then have e: "err = None" and l: "length records = max_voters"
    using run by (simp_all del: upt_Suc)
  show "err = None" by (rule e)
  show "length records = max_voters" by (rule l)
qed

theorem progressive_step_records_witness:
  "\<exists>records.
     run_single (\<lambda>k. 7) (\<lambda>k. 0) (\<lambda>k row cand. 0) 1 2 = (records, None) \<and>
     length records = 2 \<and>
     step (records ! (2 - 1)) = 2 \<and>
     length (voter_preferences (records ! (2 - 1))) = 2 \<and>
     voter_preferences (records ! (2 - 1)) = map (\<lambda>j. perms ! 7) [1..<Suc 2] \<and>
     (\<exists>pl bd cd ir.
        Plurality_compute (voter_preferences (records ! (2 - 1))) = Inr pl \<and>
        Borda_compute (voter_preferences (records ! (2 - 1))) = Inr bd \<and>
        Condorcet_compute (\<lambda>row cand. 0) (voter_preferences (records ! (2 - 1))) = Inr cd \<and>
        IRV_compute (voter_preferences (records ! (2 - 1))) = Inr ir \<and>
        winners (records ! (2 - 1)) =
          [(''plurality'', map_option ((!) labels) (winner pl)),
           (''borda'', map_option ((!) labels) (winner bd)),
           (''condorcet'', map_option ((!) labels) (winner cd)),
           (''irv'', map_option ((!) labels) (winner ir))])"
proof -
  obtain records err where
    run: "run_single (\<lambda>k. 7) (\<lambda>k. 0) (\<lambda>k row cand. 0) 1 2 = (records, err)"
    by (cases "run_single (\<lambda>k. 7) (\<lambda>k. 0) (\<lambda>k row cand. 0) 1 2") auto
  note t = progressive_step_records[OF run]
  have d: "\<forall>k::nat. (7::nat) < 120" by simp
  from t d have e: "err = None" and l: "length records = 2" by blast+
  have k: "1 \<le> (2::nat) \<and> 2 \<le> length records" using l by simp
  from t have "\<forall>k. 1 \<le> k \<and> k \<le> length records \<longrightarrow>
            step (records ! (k - 1)) = k \<and>
            length (voter_preferences (records ! (k - 1))) = k \<and>
            voter_preferences (records ! (k - 1)) = map (\<lambda>j. perms ! 7) [1..<Suc k] \<and>
            (\<exists>pl bd cd ir.
               Plurality_compute (voter_preferences (records ! (k - 1))) = Inr pl \<and>
               Borda_compute (voter_preferences (records ! (k - 1))) = Inr bd \<and>
               Condorcet_compute (\<lambda>row cand. 0) (voter_preferences (records ! (k - 1))) = Inr cd \<and>
               IRV_compute (voter_preferences (records ! (k - 1))) = Inr ir \<and>
               winners (records ! (k - 1)) =
                 [(''plurality'', map_option ((!) labels) (winner pl)),
                  (''borda'', map_option ((!) labels) (winner bd)),
                  (''condorcet'', map_option ((!) labels) (winner cd)),
                  (''irv'', map_option ((!) labels) (winner ir))])"
    by (rule conjunct1)
  note inst = this[rule_format, OF k]
  show ?thesis
    by (rule exI[of _ records]) (rule conjI[OF run[unfolded e] conjI[OF l inst]])
qed

end
